theory Spec2Isabelle
  imports Main "HOL-Library.Word"
begin

section \<open>JavaScript strings\<close>

text \<open>
  A JavaScript string is a sequence of UTF-16 code units. Indices, \<open>length\<close>,
  \<open>slice\<close>, \<open>match.index\<close> and the regular expression engine (the pattern has no
  \<open>u\<close> flag) all count code units.
\<close>

type_synonym cu = "16 word"
type_synonym jsstring = "cu list"
type_synonym bytes = "8 word list"

text \<open>An ASCII literal of the source, as code units.\<close>

definition js :: "string \<Rightarrow> jsstring" where
  "js s = map of_char s"

definition LF :: cu where
  "LF = 10"

text \<open>ECMAScript LineTerminator: LF, CR, LS (U+2028), PS (U+2029).\<close>

definition is_line_terminator :: "cu \<Rightarrow> bool" where
  "is_line_terminator c = (c = 10 \<or> c = 13 \<or> c = 0x2028 \<or> c = 0x2029)"

text \<open>
  ECMAScript WhiteSpace or LineTerminator: the set that the class escape \<open>\s\<close> matches
  and that \<open>String.prototype.trim\<close> strips (TAB, VT, FF, SP, NBSP, ZWNBSP, the
  Unicode space separators, and the four line terminators).
\<close>

definition is_white_space :: "cu \<Rightarrow> bool" where
  "is_white_space c =
     (c = 9 \<or> c = 11 \<or> c = 12 \<or> c = 32 \<or> c = 0xA0 \<or> c = 0x1680
      \<or> (0x2000 \<le> c \<and> c \<le> 0x200A)
      \<or> c = 0x202F \<or> c = 0x205F \<or> c = 0x3000 \<or> c = 0xFEFF
      \<or> is_line_terminator c)"

text \<open>\<open>s.trim()\<close>\<close>

definition trim :: "jsstring \<Rightarrow> jsstring" where
  "trim s = rev (dropWhile is_white_space (rev (dropWhile is_white_space s)))"

text \<open>\<open>s.slice(a, b)\<close> and \<open>s.slice(a)\<close> for non-negative integer arguments: both ends
  are clamped to the length.\<close>

definition slice :: "jsstring \<Rightarrow> nat \<Rightarrow> nat \<Rightarrow> jsstring" where
  "slice s a b = take (b - a) (drop a s)"

definition slice_from :: "jsstring \<Rightarrow> nat \<Rightarrow> jsstring" where
  "slice_from s a = drop a s"

text \<open>\<open>s.endsWith(t)\<close> and \<open>s.includes(t)\<close>\<close>

definition endsWith :: "jsstring \<Rightarrow> jsstring \<Rightarrow> bool" where
  "endsWith s t = (length t \<le> length s \<and> drop (length s - length t) s = t)"

fun includes_str :: "jsstring \<Rightarrow> jsstring \<Rightarrow> bool" where
  "includes_str [] t = (t = [])"
| "includes_str (c # s) t = (take (length t) (c # s) = t \<or> includes_str s t)"

text \<open>Number-to-string conversion of a non-negative integer below \<open>10^21\<close>, as a
  template literal performs it: the decimal digits.\<close>

definition digit_cu :: "nat \<Rightarrow> cu" where
  "digit_cu d = of_nat (48 + d)"

function show_nat :: "nat \<Rightarrow> jsstring" where
  "show_nat n = (if n < 10 then [digit_cu n] else show_nat (n div 10) @ [digit_cu (n mod 10)])"
  by pat_completeness auto
termination
  by (relation "measure (\<lambda>n. n)") auto

declare show_nat.simps [simp del]

section \<open>The regular expression engine\<close>

text \<open>
  The fragment of ECMAScript pattern syntax that \<open>MERMAID_RE\<close> uses, with the
  backtracking semantics of the language specification: a matcher takes a state and a
  continuation, a greedy quantifier tries one more repetition before it tries the
  continuation, a lazy one tries the continuation first. The flags are \<open>g\<close> and \<open>m\<close>:
  \<open>^\<close> and \<open>$\<close> are line assertions. Quantifiers are applied to single-character atoms
  only, as in the pattern.
\<close>

datatype class_atom =
    ClassChar cu
  | ClassWhite
  | ClassNonWhite

datatype atom =
    PatChar cu
  | ClassEscape class_atom
  | CharSet bool "class_atom list"

datatype regex =
    Atom atom
  | Star atom bool
  | Bol
  | Eol
  | Group regex
  | Seq regex regex

fun class_atom_ok :: "class_atom \<Rightarrow> cu \<Rightarrow> bool" where
  "class_atom_ok (ClassChar d) c = (c = d)"
| "class_atom_ok ClassWhite c = is_white_space c"
| "class_atom_ok ClassNonWhite c = (\<not> is_white_space c)"

text \<open>\<open>CharSet inverted members\<close> is a bracket class, \<open>[^...]\<close> when inverted.\<close>

fun atom_ok :: "atom \<Rightarrow> cu \<Rightarrow> bool" where
  "atom_ok (PatChar d) c = (c = d)"
| "atom_ok (ClassEscape a) c = class_atom_ok a c"
| "atom_ok (CharSet inverted members) c = (list_ex (\<lambda>a. class_atom_ok a c) members \<noteq> inverted)"

text \<open>The assertions \<open>^\<close> and \<open>$\<close> under the \<open>m\<close> flag: the index is at the start of the
  input or after a line terminator; at the end of the input or before a line terminator.\<close>

definition at_line_start :: "jsstring \<Rightarrow> nat \<Rightarrow> bool" where
  "at_line_start inp e = (e = 0 \<or> is_line_terminator (inp ! (e - 1)))"

definition at_line_end :: "jsstring \<Rightarrow> nat \<Rightarrow> bool" where
  "at_line_end inp e = (e = length inp \<or> is_line_terminator (inp ! e))"

text \<open>A match state: the end index and the capture of group 1.\<close>

type_synonym mstate = "nat \<times> (nat \<times> nat) option"
type_synonym cont = "mstate \<Rightarrow> mstate option"

function rep_greedy :: "atom \<Rightarrow> jsstring \<Rightarrow> cont \<Rightarrow> mstate \<Rightarrow> mstate option" where
  "rep_greedy a inp c (e, cap) =
     (if e < length inp \<and> atom_ok a (inp ! e)
      then (case rep_greedy a inp c (e + 1, cap) of
              Some z \<Rightarrow> Some z
            | None \<Rightarrow> c (e, cap))
      else c (e, cap))"
  by pat_completeness auto
termination
  by (relation "measure (\<lambda>(a, inp, c, e, cap). length inp - e)") auto

function rep_lazy :: "atom \<Rightarrow> jsstring \<Rightarrow> cont \<Rightarrow> mstate \<Rightarrow> mstate option" where
  "rep_lazy a inp c (e, cap) =
     (case c (e, cap) of
        Some z \<Rightarrow> Some z
      | None \<Rightarrow>
          (if e < length inp \<and> atom_ok a (inp ! e)
           then rep_lazy a inp c (e + 1, cap)
           else None))"
  by pat_completeness auto
termination
  by (relation "measure (\<lambda>(a, inp, c, e, cap). length inp - e)") auto

declare rep_greedy.simps [simp del] rep_lazy.simps [simp del]

fun matcher :: "regex \<Rightarrow> jsstring \<Rightarrow> cont \<Rightarrow> mstate \<Rightarrow> mstate option" where
  "matcher (Atom a) inp c (e, cap) =
     (if e < length inp \<and> atom_ok a (inp ! e) then c (e + 1, cap) else None)"
| "matcher (Star a greedy) inp c x =
     (if greedy then rep_greedy a inp c x else rep_lazy a inp c x)"
| "matcher Bol inp c (e, cap) =
     (if at_line_start inp e then c (e, cap) else None)"
| "matcher Eol inp c (e, cap) =
     (if at_line_end inp e then c (e, cap) else None)"
| "matcher (Group r) inp c (e, cap) =
     matcher r inp (\<lambda>(e', cap'). c (e', Some (e, e'))) (e, cap)"
| "matcher (Seq r1 r2) inp c x =
     matcher r1 inp (\<lambda>y. matcher r2 inp c y) x"

text \<open>A literal run of pattern characters followed by the rest of the pattern.\<close>

fun lits :: "jsstring \<Rightarrow> regex \<Rightarrow> regex" where
  "lits [] r = r"
| "lits (d # ds) r = Seq (Atom (PatChar d)) (lits ds r)"

text \<open>
  \<^verbatim>\<open>const MERMAID_RE = /^```mermaid[^\n]*\n([\s\S]*?)^```\s*$/gm;\<close>
\<close>

definition MERMAID_RE :: regex where
  "MERMAID_RE =
     Seq Bol
       (lits (js ''```mermaid'')
         (Seq (Star (CharSet True [ClassChar LF]) True)
           (Seq (Atom (PatChar LF))
             (Seq (Group (Star (CharSet False [ClassWhite, ClassNonWhite]) False))
               (Seq Bol
                 (lits (js ''```'')
                   (Seq (Star (ClassEscape ClassWhite) True) Eol)))))))"

text \<open>One attempt of the pattern at index \<open>s\<close>, with the final continuation that accepts.\<close>

definition match_at :: "regex \<Rightarrow> jsstring \<Rightarrow> nat \<Rightarrow> mstate option" where
  "match_at r inp s = matcher r inp Some (s, None)"

text \<open>A match object: \<open>m.index\<close>, \<open>m[0]\<close> and \<open>m[1]\<close>.\<close>

record rmatch =
  index :: nat
  full :: jsstring
  group1 :: jsstring

definition mk_match :: "jsstring \<Rightarrow> nat \<Rightarrow> mstate \<Rightarrow> rmatch" where
  "mk_match inp s z =
     \<lparr> index = s,
       full = slice inp s (fst z),
       group1 = (case snd z of None \<Rightarrow> [] | Some (a, b) \<Rightarrow> slice inp a b) \<rparr>"

text \<open>
  RegExpBuiltinExec for a global pattern: starting at \<open>lastIndex\<close>, try each index in
  turn until the pattern matches or the index passes the end of the input. The result
  carries the end index, which becomes the new \<open>lastIndex\<close>.
\<close>

function regexp_exec :: "regex \<Rightarrow> jsstring \<Rightarrow> nat \<Rightarrow> (nat \<times> mstate) option" where
  "regexp_exec r inp lastIndex =
     (if lastIndex > length inp then None
      else (case match_at r inp lastIndex of
              Some z \<Rightarrow> Some (lastIndex, z)
            | None \<Rightarrow> regexp_exec r inp (lastIndex + 1)))"
  by pat_completeness auto
termination
  by (relation "measure (\<lambda>(r, inp, lastIndex). Suc (length inp) - lastIndex)") auto

declare regexp_exec.simps [simp del]

text \<open>
  The declarative reading of a pattern: which end states a pattern can reach from a start
  state, whatever the priorities among the alternatives of the backtracking search.
\<close>

fun sem :: "regex \<Rightarrow> jsstring \<Rightarrow> mstate \<Rightarrow> mstate \<Rightarrow> bool" where
  "sem (Atom a) inp (e, cap) y = (e < length inp \<and> atom_ok a (inp ! e) \<and> y = (e + 1, cap))"
| "sem (Star a greedy) inp (e, cap) y =
     (\<exists>e'. y = (e', cap) \<and> e \<le> e' \<and> (\<forall>i. e \<le> i \<and> i < e' \<longrightarrow> i < length inp \<and> atom_ok a (inp ! i)))"
| "sem Bol inp (e, cap) y = (y = (e, cap) \<and> at_line_start inp e)"
| "sem Eol inp (e, cap) y = (y = (e, cap) \<and> at_line_end inp e)"
| "sem (Group r) inp (e, cap) y = (\<exists>e' cap'. sem r inp (e, cap) (e', cap') \<and> y = (e', Some (e, e')))"
| "sem (Seq r1 r2) inp x y = (\<exists>m. sem r1 inp x m \<and> sem r2 inp m y)"

lemma rep_greedy_sound:
  "rep_greedy a inp c x = Some z \<Longrightarrow> \<exists>y. sem (Star a g) inp x y \<and> c y = Some z"
proof (induction a inp c x rule: rep_greedy.induct)
  case (1 a inp c e cap)
  show ?case
  proof (cases "e < length inp \<and> atom_ok a (inp ! e)")
    case False
    with "1.prems" have "c (e, cap) = Some z"
      by (simp add: rep_greedy.simps)
    then show ?thesis by auto
  next
    case True
    show ?thesis
    proof (cases "rep_greedy a inp c (e + 1, cap)")
      case None
      with True "1.prems" have "c (e, cap) = Some z"
        by (simp add: rep_greedy.simps)
      then show ?thesis by auto
    next
      case (Some z')
      with True "1.prems" have zz: "z' = z"
        by (simp add: rep_greedy.simps)
      from "1.IH" [OF True] Some zz
      obtain e' where e': "e + 1 \<le> e'"
          "\<forall>i. e + 1 \<le> i \<and> i < e' \<longrightarrow> i < length inp \<and> atom_ok a (inp ! i)"
          "c (e', cap) = Some z"
        by auto
      have "\<forall>i. e \<le> i \<and> i < e' \<longrightarrow> i < length inp \<and> atom_ok a (inp ! i)"
      proof (intro allI impI)
        fix i assume i: "e \<le> i \<and> i < e'"
        show "i < length inp \<and> atom_ok a (inp ! i)"
        proof (cases "i = e")
          case True
          with \<open>e < length inp \<and> atom_ok a (inp ! e)\<close> show ?thesis by simp
        next
          case False
          with i have "e + 1 \<le> i \<and> i < e'" by simp
          with e'(2) show ?thesis by blast
        qed
      qed
      then have "sem (Star a g) inp (e, cap) (e', cap)"
        using e'(1) by simp
      with e'(3) show ?thesis by blast
    qed
  qed
qed

lemma rep_lazy_sound:
  "rep_lazy a inp c x = Some z \<Longrightarrow> \<exists>y. sem (Star a g) inp x y \<and> c y = Some z"
proof (induction a inp c x rule: rep_lazy.induct)
  case (1 a inp c e cap)
  show ?case
  proof (cases "c (e, cap)")
    case (Some z')
    with "1.prems" have "c (e, cap) = Some z"
      by (simp add: rep_lazy.simps)
    then show ?thesis by auto
  next
    case None
    with "1.prems" have ok: "e < length inp \<and> atom_ok a (inp ! e)"
      and rec: "rep_lazy a inp c (e + 1, cap) = Some z"
      by (auto simp add: rep_lazy.simps split: if_splits)
    from "1.IH" [OF None ok rec]
    obtain e' where e': "e + 1 \<le> e'"
        "\<forall>i. e + 1 \<le> i \<and> i < e' \<longrightarrow> i < length inp \<and> atom_ok a (inp ! i)"
        "c (e', cap) = Some z"
      by auto
    have "\<forall>i. e \<le> i \<and> i < e' \<longrightarrow> i < length inp \<and> atom_ok a (inp ! i)"
    proof (intro allI impI)
      fix i assume i: "e \<le> i \<and> i < e'"
      show "i < length inp \<and> atom_ok a (inp ! i)"
      proof (cases "i = e")
        case True
        with ok show ?thesis by simp
      next
        case False
        with i have "e + 1 \<le> i \<and> i < e'" by simp
        with e'(2) show ?thesis by blast
      qed
    qed
    then have "sem (Star a g) inp (e, cap) (e', cap)"
      using e'(1) by simp
    with e'(3) show ?thesis by blast
  qed
qed

lemma matcher_sound:
  "matcher r inp c x = Some z \<Longrightarrow> \<exists>y. sem r inp x y \<and> c y = Some z"
proof (induction r arbitrary: c x)
  case (Atom a)
  then show ?case by (cases x) (auto split: if_splits)
next
  case (Star a greedy)
  then show ?case
    using rep_greedy_sound [of a inp c x z greedy] rep_lazy_sound [of a inp c x z greedy]
    by (cases greedy) simp_all
next
  case Bol
  then show ?case by (cases x) (auto split: if_splits)
next
  case Eol
  then show ?case by (cases x) (auto split: if_splits)
next
  case (Group r)
  obtain e cap where x: "x = (e, cap)" by (cases x)
  from Group.prems x
  have "matcher r inp (\<lambda>(e', cap'). c (e', Some (e, e'))) (e, cap) = Some z" by simp
  from Group.IH [OF this]
  obtain y where y: "sem r inp (e, cap) y" "(case y of (e', cap') \<Rightarrow> c (e', Some (e, e'))) = Some z"
    by auto
  obtain e' cap' where y': "y = (e', cap')" by (cases y)
  with y x show ?case by auto
next
  case (Seq r1 r2)
  from Seq.prems have "matcher r1 inp (\<lambda>y. matcher r2 inp c y) x = Some z" by simp
  from Seq.IH(1) [OF this]
  obtain m where m: "sem r1 inp x m" "matcher r2 inp c m = Some z" by auto
  from Seq.IH(2) [OF m(2)]
  obtain y where y: "sem r2 inp m y" "c y = Some z" by auto
  from m(1) y(1) have "sem (Seq r1 r2) inp x y"
    using sem.simps(6) by blast
  with y(2) show ?case by blast
qed

lemma sem_progress:
  "sem r inp x y \<Longrightarrow> fst x \<le> fst y \<and> (fst x \<le> length inp \<longrightarrow> fst y \<le> length inp)"
proof (induction r arbitrary: x y)
  case (Atom a)
  then show ?case by (cases x) auto
next
  case (Star a greedy)
  obtain e cap where x: "x = (e, cap)" by (cases x)
  from Star x obtain e' where e': "y = (e', cap)" "e \<le> e'"
      "\<forall>i. e \<le> i \<and> i < e' \<longrightarrow> i < length inp \<and> atom_ok a (inp ! i)"
    by auto
  have "e \<le> length inp \<longrightarrow> e' \<le> length inp"
  proof
    assume le: "e \<le> length inp"
    show "e' \<le> length inp"
    proof (cases "e = e'")
      case True
      with le show ?thesis by simp
    next
      case False
      with e'(2) have "e \<le> e' - 1 \<and> e' - 1 < e'" by arith
      with e'(3) have "e' - 1 < length inp" by blast
      then show ?thesis by arith
    qed
  qed
  with x e' show ?case by simp
next
  case Bol
  then show ?case by (cases x) auto
next
  case Eol
  then show ?case by (cases x) auto
next
  case (Group r)
  obtain e cap where x: "x = (e, cap)" by (cases x)
  from Group.prems x obtain e' cap' where s: "sem r inp (e, cap) (e', cap')" "y = (e', Some (e, e'))"
    by auto
  from Group.IH [OF s(1)] s(2) x show ?case by simp
next
  case (Seq r1 r2)
  from Seq.prems obtain m where m: "sem r1 inp x m" "sem r2 inp m y" by auto
  from Seq.IH(1) [OF m(1)] Seq.IH(2) [OF m(2)] show ?case by auto
qed

lemma match_at_sem:
  "match_at r inp s = Some z \<Longrightarrow> sem r inp (s, None) z"
  using matcher_sound [of r inp Some "(s, None)" z] by (auto simp add: match_at_def)

lemma match_at_bounds:
  assumes "match_at r inp s = Some z"
  shows "s \<le> fst z" and "s \<le> length inp \<Longrightarrow> fst z \<le> length inp"
  using sem_progress [OF match_at_sem [OF assms]] by simp_all

lemma regexp_exec_Some:
  "regexp_exec r inp lastIndex = Some (s, z) \<Longrightarrow>
     lastIndex \<le> s \<and> s \<le> length inp \<and> match_at r inp s = Some z"
proof (induction r inp lastIndex rule: regexp_exec.induct)
  case (1 r inp lastIndex)
  from "1.prems" have le: "\<not> lastIndex > length inp"
    by (auto simp add: regexp_exec.simps [of r inp lastIndex] split: if_splits)
  show ?case
  proof (cases "match_at r inp lastIndex")
    case None
    with "1.prems" le have "regexp_exec r inp (lastIndex + 1) = Some (s, z)"
      by (simp add: regexp_exec.simps [of r inp lastIndex])
    from "1.IH" [OF le None this] show ?thesis by simp
  next
    case (Some z')
    with "1.prems" le show ?thesis
      by (simp add: regexp_exec.simps [of r inp lastIndex])
  qed
qed

text \<open>
  \<open>String.prototype.matchAll\<close> with a global pattern, collected by the spread
  \<open>[...content.matchAll(MERMAID_RE)]\<close>: the iterator works on a copy of the pattern whose
  \<open>lastIndex\<close> starts as that of \<open>MERMAID_RE\<close>, which nothing ever advances from 0. After
  each match \<open>lastIndex\<close> is the end of the match, advanced by one when the match is empty.
\<close>

function match_all :: "regex \<Rightarrow> jsstring \<Rightarrow> nat \<Rightarrow> rmatch list" where
  "match_all r inp lastIndex =
     (case regexp_exec r inp lastIndex of
        None \<Rightarrow> []
      | Some (s, z) \<Rightarrow>
          mk_match inp s z # match_all r inp (if fst z = s then fst z + 1 else fst z))"
  by pat_completeness auto
termination
  apply (relation "measure (\<lambda>(r, inp, lastIndex). Suc (length inp) - lastIndex)")
   apply simp
  subgoal for r inp lastIndex x2 s z
    using regexp_exec_Some [of r inp lastIndex s z] match_at_bounds(1) [of r inp s z]
    by auto
  done

declare match_all.simps [simp del]

definition matchAll :: "jsstring \<Rightarrow> rmatch list" where
  "matchAll content = match_all MERMAID_RE content 0"

section \<open>Command line and configuration\<close>

datatype fmt = Svg | Jpg

datatype mode = B64 | Files

text \<open>The module-level constants \<open>mdPath\<close>, \<open>fmt\<close>, \<open>mode\<close> and \<open>scale\<close>.\<close>

record config =
  mdPath :: jsstring
  fmt :: fmt
  mode :: mode
  scale :: int

text \<open>The \<open>values\<close> that \<open>parseArgs\<close> returns: a string option is absent or has a
  value, a boolean option is absent (falsy) or \<open>true\<close>.\<close>

record argv_values =
  arg_md :: "jsstring option"
  arg_svg :: bool
  arg_jpg :: bool
  arg_b64 :: bool
  arg_files :: bool
  arg_scale :: "jsstring option"
  arg_version :: bool
  arg_help :: bool

definition is_digit :: "cu \<Rightarrow> bool" where
  "is_digit c = (48 \<le> c \<and> c \<le> 57)"

definition digit_value :: "cu \<Rightarrow> int" where
  "digit_value c = int (unat c) - 48"

text \<open>
  \<open>parseInt(s, 10)\<close>: leading white space is skipped, one sign is read, then the longest
  run of decimal digits; no digit gives \<open>NaN\<close>, here \<open>None\<close>. The value is the
  mathematical integer of the digits. (The language rounds it to a double, and \<open>-0\<close> is a
  value of its own; clamping into 1..4 gives the same number for the rounded and the exact
  value, as rounding is monotone and keeps 1 and 4.)
\<close>

definition parseInt10 :: "jsstring \<Rightarrow> int option" where
  "parseInt10 s =
     (let t = dropWhile is_white_space s;
          sign = (if t \<noteq> [] \<and> hd t = 45 then - 1 else 1);
          u = (if t \<noteq> [] \<and> (hd t = 43 \<or> hd t = 45) then tl t else t);
          z = takeWhile is_digit u
      in if z = [] then None
         else Some (sign * foldl (\<lambda>acc c. 10 * acc + digit_value c) 0 z))"

text \<open>Lines 86 to 91: \<open>rawScale\<close> and \<open>scale\<close>; \<open>None\<close> is the exit with
  \<open>--scale must be a number (1-4)\<close>.\<close>

definition parse_scale :: "jsstring option \<Rightarrow> int option" where
  "parse_scale opt =
     (case parseInt10 (case opt of None \<Rightarrow> js ''2'' | Some v \<Rightarrow> v) of
        None \<Rightarrow> None
      | Some rawScale \<Rightarrow> Some (max 1 (min 4 rawScale)))"

text \<open>How the top level of the module ends: with \<open>process.exit\<close>, or with the
  constants that the functions below read.\<close>

datatype startup =
    ExitVersion
  | ExitHelp nat
  | ExitError jsstring
  | Ready config

text \<open>Lines 60 to 96. \<open>resolve\<close> and \<open>existsSync\<close> are those of the platform.\<close>

definition startup :: "(jsstring \<Rightarrow> jsstring) \<Rightarrow> (jsstring \<Rightarrow> bool) \<Rightarrow> argv_values \<Rightarrow> startup" where
  "startup resolve existsSync v =
     (if arg_version v then ExitVersion
      else if arg_help v \<or> arg_md v = None \<or> arg_md v = Some [] then
        ExitHelp (if arg_help v then 0 else 1)
      else if arg_svg v \<and> arg_jpg v then
        ExitError (js ''Error: --svg and --jpg are mutually exclusive'')
      else if arg_b64 v \<and> arg_files v then
        ExitError (js ''Error: --b64 and --files are mutually exclusive'')
      else if arg_svg v \<and> arg_files v then
        ExitError (js ''Error: --files requires --jpg format'')
      else
        (let mdPath' = resolve (the (arg_md v));
             fmt' = (if arg_svg v then Svg else Jpg);
             mode' = (if arg_files v then Files else B64)
         in case parse_scale (arg_scale v) of
              None \<Rightarrow> ExitError (js ''Error: --scale must be a number (1-4)'')
            | Some scale' \<Rightarrow>
                if \<not> existsSync mdPath' then
                  ExitError (js ''Error: path not found: '' @ mdPath')
                else Ready \<lparr> mdPath = mdPath', fmt = fmt', mode = mode', scale = scale' \<rparr>))"

section \<open>The platform\<close>

text \<open>
  What the program does to the outside is a trace of events, in the order of the calls.
  What the outside answers is decided by the platform: each call takes the state \<open>'w\<close> of
  the outside world and returns a value, or the message of the error it throws, and the
  next state of the world.
\<close>

type_synonym 'a thrown = "jsstring + 'a"

datatype event =
    Stdout jsstring
  | Stderr jsstring
  | Stat jsstring
  | ReadFile jsstring
  | Mkdir jsstring
  | WriteText jsstring jsstring
  | WriteBytes jsstring bytes
  | Launch
  | NewPage nat nat int
  | SetContent
  | WaitForFunction nat
  | Evaluate jsstring
  | QuerySvg
  | Screenshot
  | ClosePage
  | CloseBrowser

text \<open>A directory as the calls of \<open>readdir\<close> with \<open>withFileTypes\<close> list it, level by
  level: entries that are not directories, directories with their entries, and directories
  whose listing throws.\<close>

datatype dirent =
    NonDir jsstring
  | SubDir jsstring "dirent list"
  | Unreadable jsstring jsstring

record 'w platform =
  path_join :: "jsstring \<Rightarrow> jsstring \<Rightarrow> jsstring"
  path_dirname :: "jsstring \<Rightarrow> jsstring"
  path_basename :: "jsstring \<Rightarrow> jsstring"
  path_basename_ext :: "jsstring \<Rightarrow> jsstring \<Rightarrow> jsstring"
  path_extname :: "jsstring \<Rightarrow> jsstring"
  buffer_base64 :: "bytes \<Rightarrow> jsstring"
  fs_stat_isDirectory :: "jsstring \<Rightarrow> 'w \<Rightarrow> bool thrown \<times> 'w"
  fs_readdir :: "jsstring \<Rightarrow> 'w \<Rightarrow> dirent list thrown"
  fs_readFile :: "jsstring \<Rightarrow> 'w \<Rightarrow> jsstring thrown \<times> 'w"
  fs_mkdir :: "jsstring \<Rightarrow> 'w \<Rightarrow> unit thrown \<times> 'w"
  fs_writeText :: "jsstring \<Rightarrow> jsstring \<Rightarrow> 'w \<Rightarrow> unit thrown \<times> 'w"
  fs_writeBytes :: "jsstring \<Rightarrow> bytes \<Rightarrow> 'w \<Rightarrow> unit thrown \<times> 'w"
  chromium_launch :: "'w \<Rightarrow> unit thrown \<times> 'w"
  browser_newPage :: "nat \<Rightarrow> nat \<Rightarrow> int \<Rightarrow> 'w \<Rightarrow> unit thrown \<times> 'w"
  page_setContent :: "'w \<Rightarrow> unit thrown \<times> 'w"
  page_waitForFunction :: "nat \<Rightarrow> 'w \<Rightarrow> unit thrown \<times> 'w"
  page_evaluate_render :: "jsstring \<Rightarrow> 'w \<Rightarrow> jsstring thrown \<times> 'w"
  page_query_svg :: "'w \<Rightarrow> bool thrown \<times> 'w"
  element_screenshot :: "'w \<Rightarrow> bytes thrown \<times> 'w"
  page_close :: "'w \<Rightarrow> unit thrown \<times> 'w"
  browser_close :: "'w \<Rightarrow> unit thrown \<times> 'w"

record 'w state =
  world :: 'w
  trace :: "event list"

definition call :: "event \<Rightarrow> ('w \<Rightarrow> 'a thrown \<times> 'w) \<Rightarrow> 'w state \<Rightarrow> 'a thrown \<times> 'w state" where
  "call ev f st =
     (case f (world st) of (r, w) \<Rightarrow> (r, \<lparr> world = w, trace = trace st @ [ev] \<rparr>))"

definition emit :: "event \<Rightarrow> 'w state \<Rightarrow> 'w state" where
  "emit ev st = \<lparr> world = world st, trace = trace st @ [ev] \<rparr>"

definition stdout_write :: "jsstring \<Rightarrow> 'w state \<Rightarrow> 'w state" where
  "stdout_write s = emit (Stdout s)"

definition stderr_write :: "jsstring \<Rightarrow> 'w state \<Rightarrow> 'w state" where
  "stderr_write s = emit (Stderr s)"

definition console_log :: "jsstring \<Rightarrow> 'w state \<Rightarrow> 'w state" where
  "console_log s = emit (Stdout (s @ [LF]))"

definition console_error :: "jsstring \<Rightarrow> 'w state \<Rightarrow> 'w state" where
  "console_error s = emit (Stderr (s @ [LF]))"

definition console_warn :: "jsstring \<Rightarrow> 'w state \<Rightarrow> 'w state" where
  "console_warn s = emit (Stderr (s @ [LF]))"

section \<open>Document discovery\<close>

text \<open>Lines 106 to 109: the test on the name of an entry that is not a directory.\<close>

definition selected :: "jsstring \<Rightarrow> bool" where
  "selected name = (endsWith name (js ''.md'') \<and> \<not> includes_str name (js ''_mermaid2''))"

text \<open>The loop of \<open>collectMarkdownFiles\<close> over the entries of \<open>dir\<close>, with the
  array \<open>files\<close> it pushes to.\<close>

fun collect_loop ::
  "(jsstring \<Rightarrow> jsstring \<Rightarrow> jsstring) \<Rightarrow> jsstring \<Rightarrow> dirent list \<Rightarrow> jsstring list
     \<Rightarrow> jsstring list thrown" where
  "collect_loop join dir [] files = Inr files"
| "collect_loop join dir (SubDir name entries # rest) files =
     (case collect_loop join (join dir name) entries [] of
        Inl err \<Rightarrow> Inl err
      | Inr sub \<Rightarrow> collect_loop join dir rest (files @ sub))"
| "collect_loop join dir (Unreadable name err # rest) files = Inl err"
| "collect_loop join dir (NonDir name # rest) files =
     (if selected name
      then collect_loop join dir rest (files @ [join dir name])
      else collect_loop join dir rest files)"

definition collectMarkdownFiles ::
  "(jsstring \<Rightarrow> jsstring \<Rightarrow> jsstring) \<Rightarrow> jsstring \<Rightarrow> dirent list thrown \<Rightarrow> jsstring list thrown" where
  "collectMarkdownFiles join dir listing =
     (case listing of
        Inl err \<Rightarrow> Inl err
      | Inr entries \<Rightarrow> collect_loop join dir entries [])"

section \<open>Rendering one diagram\<close>

text \<open>
  \<open>renderDiagram\<close>: the page renders the code and the markup becomes the body of the
  page; for \<open>jpg\<close> the \<open>svg\<close> element is looked up and captured. Each of the three
  calls can throw, and a missing element throws here.
\<close>

definition renderDiagram ::
  "config \<Rightarrow> 'w platform \<Rightarrow> jsstring \<Rightarrow> 'w state \<Rightarrow> (jsstring \<times> bytes option) thrown \<times> 'w state" where
  "renderDiagram cfg pf code st =
     (case call (Evaluate code) (page_evaluate_render pf code) st of
        (Inl err, st1) \<Rightarrow> (Inl err, st1)
      | (Inr svgHtml, st1) \<Rightarrow>
          (if fmt cfg = Jpg then
             (case call QuerySvg (page_query_svg pf) st1 of
                (Inl err, st2) \<Rightarrow> (Inl err, st2)
              | (Inr el, st2) \<Rightarrow>
                  (if \<not> el then (Inl (js ''SVG element not found after rendering''), st2)
                   else (case call Screenshot (element_screenshot pf) st2 of
                           (Inl err, st3) \<Rightarrow> (Inl err, st3)
                         | (Inr buf, st3) \<Rightarrow> (Inr (svgHtml, Some buf), st3))))
           else (Inr (svgHtml, None), st1)))"

text \<open>
  Lines 204 to 218, the body of the \<open>try\<close> up to the assignment of \<open>replacement\<close>:
  \<open>i\<close> is the index of the match in the array, so the ordinal in the text is \<open>i + 1\<close>.
\<close>

definition render_replacement ::
  "config \<Rightarrow> 'w platform \<Rightarrow> jsstring \<Rightarrow> jsstring \<Rightarrow> nat \<Rightarrow> jsstring \<Rightarrow> 'w state
     \<Rightarrow> jsstring thrown \<times> 'w state" where
  "render_replacement cfg pf base mermaidDir i code st =
     (case renderDiagram cfg pf code st of
        (Inl err, st1) \<Rightarrow> (Inl err, st1)
      | (Inr (svg, jpg), st1) \<Rightarrow>
          (if fmt cfg = Svg then (Inr ([LF] @ svg @ [LF]), st1)
           else (case jpg of
                   None \<Rightarrow> (Inl (js ''Screenshot capture failed''), st1)
                 | Some buf \<Rightarrow>
                     (if mode cfg = B64 then
                        (let b64 = buffer_base64 pf buf
                         in (Inr (js ''![Diagram '' @ show_nat (i + 1)
                                    @ js ''](data:image/jpeg;base64,'' @ b64 @ js '')''), st1))
                      else
                        (let fname = base @ js ''-'' @ show_nat (i + 1) @ js ''.jpg''
                         in case call (WriteBytes (path_join pf mermaidDir fname) buf)
                                   (fs_writeBytes pf (path_join pf mermaidDir fname) buf) st1 of
                              (Inl err, st2) \<Rightarrow> (Inl err, st2)
                            | (Inr u, st2) \<Rightarrow>
                                (Inr (js ''![Diagram '' @ show_nat (i + 1)
                                        @ js ''](./mermaid/'' @ fname @ js '')''), st2))))))"

section \<open>Processing one file\<close>

text \<open>The variables of the loop of \<open>processFile\<close>: \<open>result\<close>, \<open>failures\<close>, and the
  outside.\<close>

record 'w loop_state =
  result :: jsstring
  failures :: nat
  ext :: "'w state"

text \<open>One turn of the loop, lines 196 to 225, for the match at index \<open>i\<close>.\<close>

definition iteration ::
  "config \<Rightarrow> 'w platform \<Rightarrow> jsstring \<Rightarrow> jsstring \<Rightarrow> rmatch list \<Rightarrow> nat \<Rightarrow> 'w loop_state
     \<Rightarrow> 'w loop_state" where
  "iteration cfg pf base mermaidDir matches i ls =
     (let match = matches ! i;
          code = trim (group1 match);
          start = index match;
          end' = start + length (full match);
          st0 = stdout_write (js ''  ['' @ show_nat (i + 1) @ js ''/''
                                @ show_nat (length matches) @ js ''] '') (ext ls)
      in case render_replacement cfg pf base mermaidDir i code st0 of
           (Inr replacement, st1) \<Rightarrow>
             \<lparr> result = slice (result ls) 0 start @ replacement @ slice_from (result ls) end',
               failures = failures ls,
               ext = console_log (js ''done'') st1 \<rparr>
         | (Inl message, st1) \<Rightarrow>
             \<lparr> result = result ls,
               failures = failures ls + 1,
               ext = console_error (js ''failed '' @ [0x2014] @ js '' '' @ message) st1 \<rparr>)"

text \<open>
  \<^verbatim>\<open>for (let i = matches.length - 1; i >= 0; i--)\<close>: the numeral argument is the
  number of turns left, so the turn run next is the one for index \<open>i\<close> when it is \<open>Suc i\<close>.
\<close>

fun processLoop ::
  "config \<Rightarrow> 'w platform \<Rightarrow> jsstring \<Rightarrow> jsstring \<Rightarrow> rmatch list \<Rightarrow> nat \<Rightarrow> 'w loop_state
     \<Rightarrow> 'w loop_state" where
  "processLoop cfg pf base mermaidDir matches 0 ls = ls"
| "processLoop cfg pf base mermaidDir matches (Suc i) ls =
     processLoop cfg pf base mermaidDir matches i (iteration cfg pf base mermaidDir matches i ls)"

definition suffix_of :: "fmt \<Rightarrow> jsstring" where
  "suffix_of f = (if f = Svg then js ''_mermaid2svg'' else js ''_mermaid2jpg'')"

text \<open>Lines 228 to 238, after the loop.\<close>

definition finish_file ::
  "config \<Rightarrow> 'w platform \<Rightarrow> jsstring \<Rightarrow> jsstring \<Rightarrow> jsstring \<Rightarrow> 'w loop_state
     \<Rightarrow> bool thrown \<times> 'w state" where
  "finish_file cfg pf dir base ext' ls =
     (let suffix = suffix_of (fmt cfg);
          outPath = path_join pf dir (base @ suffix @ ext')
      in case call (WriteText outPath (result ls)) (fs_writeText pf outPath (result ls)) (ext ls) of
           (Inl err, st1) \<Rightarrow> (Inl err, st1)
         | (Inr u, st1) \<Rightarrow>
             (let st2 = (if failures ls > 0
                         then console_warn (js ''  Warning: '' @ show_nat (failures ls)
                                 @ js '' diagram(s) failed and were left as raw mermaid blocks.'') st1
                         else st1)
              in (Inr True, console_log (js ''  -> '' @ outPath) st2)))"

text \<open>Lines 181 to 190, for a file with \<open>n\<close> matches: the message that names the file,
  and the folder of the images when they are exported.\<close>

definition prepare :: "config \<Rightarrow> 'w platform \<Rightarrow> jsstring \<Rightarrow> nat \<Rightarrow> 'w state \<Rightarrow> unit thrown \<times> 'w state" where
  "prepare cfg pf filePath n st =
     (let dir = path_dirname pf filePath;
          mermaidDir = path_join pf dir (js ''mermaid'');
          st1 = console_log ([LF] @ path_basename pf filePath @ js '': ''
                               @ show_nat n @ js '' diagram(s)'') st
      in if fmt cfg = Jpg \<and> mode cfg = Files
         then call (Mkdir mermaidDir) (fs_mkdir pf mermaidDir) st1
         else (Inr (), st1))"

text \<open>Lines 181 to 238, for a file with at least one match.\<close>

definition convert_file ::
  "config \<Rightarrow> 'w platform \<Rightarrow> jsstring \<Rightarrow> jsstring \<Rightarrow> rmatch list \<Rightarrow> 'w state
     \<Rightarrow> bool thrown \<times> 'w state" where
  "convert_file cfg pf filePath content matches st =
     (let dir = path_dirname pf filePath;
          ext' = path_extname pf filePath;
          base = path_basename_ext pf filePath ext';
          mermaidDir = path_join pf dir (js ''mermaid'')
      in case prepare cfg pf filePath (length matches) st of
           (Inl err, st2) \<Rightarrow> (Inl err, st2)
         | (Inr u, st2) \<Rightarrow>
             finish_file cfg pf dir base ext'
               (processLoop cfg pf base mermaidDir matches (length matches)
                  \<lparr> result = content, failures = 0, ext = st2 \<rparr>))"

definition processFile ::
  "config \<Rightarrow> 'w platform \<Rightarrow> jsstring \<Rightarrow> 'w state \<Rightarrow> bool thrown \<times> 'w state" where
  "processFile cfg pf filePath st =
     (case call (ReadFile filePath) (fs_readFile pf filePath) st of
        (Inl err, st1) \<Rightarrow> (Inl err, st1)
      | (Inr content, st1) \<Rightarrow>
          (let matches = matchAll content
           in if length matches = 0 then (Inr False, st1)
              else convert_file cfg pf filePath content matches st1))"

section \<open>The batch\<close>

definition initPage :: "config \<Rightarrow> 'w platform \<Rightarrow> 'w state \<Rightarrow> unit thrown \<times> 'w state" where
  "initPage cfg pf st =
     (case call (NewPage 1400 900 (scale cfg)) (browser_newPage pf 1400 900 (scale cfg)) st of
        (Inl err, st1) \<Rightarrow> (Inl err, st1)
      | (Inr u, st1) \<Rightarrow>
          (case call SetContent (page_setContent pf) st1 of
             (Inl err, st2) \<Rightarrow> (Inl err, st2)
           | (Inr u, st2) \<Rightarrow>
               (case call (WaitForFunction 30000) (page_waitForFunction pf 30000) st2 of
                  (Inl err, st3) \<Rightarrow>
                    (Inl (js ''Mermaid failed to load '' @ [0x2014]
                          @ js '' check your network connection.'' @ [LF]
                          @ js ''CDN: https://cdn.jsdelivr.net/npm/mermaid@11/dist/mermaid.esm.min.mjs''),
                     st3)
                | (Inr u, st3) \<Rightarrow> (Inr (), st3))))"

text \<open>\<^verbatim>\<open>for (const file of files) { if (await processFile(page, file)) processed++; }\<close>\<close>

fun processFiles ::
  "config \<Rightarrow> 'w platform \<Rightarrow> jsstring list \<Rightarrow> nat \<Rightarrow> 'w state \<Rightarrow> nat thrown \<times> 'w state" where
  "processFiles cfg pf [] processed st = (Inr processed, st)"
| "processFiles cfg pf (file # files) processed st =
     (case processFile cfg pf file st of
        (Inl err, st1) \<Rightarrow> (Inl err, st1)
      | (Inr b, st1) \<Rightarrow> processFiles cfg pf files (if b then processed + 1 else processed) st1)"

text \<open>The body of the \<open>try\<close> of \<open>main\<close>; an error of \<open>page.close()\<close> is swallowed.\<close>

definition session :: "config \<Rightarrow> 'w platform \<Rightarrow> jsstring list \<Rightarrow> 'w state \<Rightarrow> nat thrown \<times> 'w state" where
  "session cfg pf files st =
     (case initPage cfg pf st of
        (Inl err, st1) \<Rightarrow> (Inl err, st1)
      | (Inr u, st1) \<Rightarrow>
          (case processFiles cfg pf files 0 st1 of
             (Inl err, st2) \<Rightarrow> (Inl err, st2)
           | (Inr processed, st2) \<Rightarrow>
               (Inr processed, snd (call ClosePage (page_close pf) st2))))"

text \<open>Lines 243 to 246: the files to scan.\<close>

definition discover :: "config \<Rightarrow> 'w platform \<Rightarrow> 'w state \<Rightarrow> jsstring list thrown \<times> 'w state" where
  "discover cfg pf st =
     (case call (Stat (mdPath cfg)) (fs_stat_isDirectory pf (mdPath cfg)) st of
        (Inl err, st1) \<Rightarrow> (Inl err, st1)
      | (Inr isDirectory, st1) \<Rightarrow>
          (if isDirectory
           then (collectMarkdownFiles (path_join pf) (mdPath cfg)
                   (fs_readdir pf (mdPath cfg) (world st1)), st1)
           else (Inr [mdPath cfg], st1)))"

text \<open>\<open>main\<close>, with the banner it starts with as a parameter. The \<open>finally\<close> closes the
  browser on both paths, and an error of that call is the one that leaves \<open>main\<close>.\<close>

definition main :: "jsstring \<Rightarrow> config \<Rightarrow> 'w platform \<Rightarrow> 'w state \<Rightarrow> unit thrown \<times> 'w state" where
  "main banner cfg pf st =
     (case discover cfg pf (stderr_write (banner @ [LF]) st) of
        (Inl err, st1) \<Rightarrow> (Inl err, st1)
      | (Inr files, st1) \<Rightarrow>
          (if length files = 0 then (Inr (), console_log (js ''No markdown files found.'') st1)
           else
             (case call Launch (chromium_launch pf)
                     (console_log (show_nat (length files)
                        @ js '' markdown file(s) to scan. Launching browser...'') st1) of
                (Inl err, st2) \<Rightarrow> (Inl err, st2)
              | (Inr u, st2) \<Rightarrow>
                  (case session cfg pf files st2 of
                     (r, st3) \<Rightarrow>
                       (case call CloseBrowser (browser_close pf) st3 of
                          (Inl err, st4) \<Rightarrow> (Inl err, st4)
                        | (Inr u, st4) \<Rightarrow>
                            (case r of
                               Inl err \<Rightarrow> (Inl err, st4)
                             | Inr processed \<Rightarrow>
                                 (Inr (), console_log ([LF] @ js ''Done. '' @ show_nat processed
                                    @ js '' file(s) with diagrams rendered.'') st4)))))))"

section \<open>Replacement decisions and the composed document\<close>

text \<open>
  The outcome of one diagram as the specification names it: the replacement text of a
  rendered diagram, or the reason of a failed one.
\<close>

datatype outcome = Rendered jsstring | Failed jsstring

text \<open>The span of a match: \<open>start = match.index\<close>, \<open>end = start + match[0].length\<close>.\<close>

definition span_of :: "rmatch \<Rightarrow> nat \<times> nat" where
  "span_of m = (index m, index m + length (full m))"

text \<open>Spans in document order between a cursor \<open>c\<close> and a bound \<open>b\<close>: each has
  \<open>start \<le> end\<close>, starts at or after the end of the one before, and ends within the bound.\<close>

fun spans_ok :: "nat \<Rightarrow> (nat \<times> nat) list \<Rightarrow> nat \<Rightarrow> bool" where
  "spans_ok c [] b = (c \<le> b)"
| "spans_ok c ((s, e) # spans) b = (c \<le> s \<and> s \<le> e \<and> spans_ok e spans b)"

text \<open>What stands in the place of a span: the replacement text, or the slice of the
  document itself when the diagram failed.\<close>

fun replaced :: "jsstring \<Rightarrow> nat \<times> nat \<Rightarrow> outcome \<Rightarrow> jsstring" where
  "replaced doc (s, e) (Rendered text) = text"
| "replaced doc (s, e) (Failed reason) = slice doc s e"

text \<open>The document read from left to right, from the cursor \<open>c\<close> to the bound \<open>b\<close>:
  the text before each span as it is, then what stands in the place of the span.\<close>

fun compose_upto :: "jsstring \<Rightarrow> nat \<Rightarrow> ((nat \<times> nat) \<times> outcome) list \<Rightarrow> nat \<Rightarrow> jsstring" where
  "compose_upto doc c [] b = slice doc c b"
| "compose_upto doc c ((span, out) # ds) b =
     slice doc c (fst span) @ replaced doc span out @ compose_upto doc (snd span) ds b"

definition compose :: "jsstring \<Rightarrow> ((nat \<times> nat) \<times> outcome) list \<Rightarrow> jsstring" where
  "compose doc ds = compose_upto doc 0 ds (length doc)"

text \<open>The render orchestration of the match at index \<open>i\<close>: the progress message, the
  rendering and shaping of the replacement, and the message of the outcome.\<close>

definition orchestrate ::
  "config \<Rightarrow> 'w platform \<Rightarrow> jsstring \<Rightarrow> jsstring \<Rightarrow> rmatch list \<Rightarrow> nat \<Rightarrow> 'w state
     \<Rightarrow> outcome \<times> 'w state" where
  "orchestrate cfg pf base mermaidDir matches i st =
     (case render_replacement cfg pf base mermaidDir i (trim (group1 (matches ! i)))
             (stdout_write (js ''  ['' @ show_nat (i + 1) @ js ''/''
                              @ show_nat (length matches) @ js ''] '') st) of
        (Inr text, st1) \<Rightarrow> (Rendered text, console_log (js ''done'') st1)
      | (Inl message, st1) \<Rightarrow>
          (Failed message, console_error (js ''failed '' @ [0x2014] @ js '' '' @ message) st1))"

text \<open>The outcomes of the matches below index \<open>i\<close>, in document order, when they are
  orchestrated from index \<open>i - 1\<close> down to 0, and the outside after the last of them.\<close>

fun decisions ::
  "config \<Rightarrow> 'w platform \<Rightarrow> jsstring \<Rightarrow> jsstring \<Rightarrow> rmatch list \<Rightarrow> nat \<Rightarrow> 'w state
     \<Rightarrow> outcome list \<times> 'w state" where
  "decisions cfg pf base mermaidDir matches 0 st = ([], st)"
| "decisions cfg pf base mermaidDir matches (Suc i) st =
     (case orchestrate cfg pf base mermaidDir matches i st of
        (out, st1) \<Rightarrow>
          (case decisions cfg pf base mermaidDir matches i st1 of
             (outs, st2) \<Rightarrow> (outs @ [out], st2)))"

fun is_Failed :: "outcome \<Rightarrow> bool" where
  "is_Failed (Failed reason) = True"
| "is_Failed (Rendered text) = False"

text \<open>A position of the document that lies in none of the spans.\<close>

definition outside :: "(nat \<times> nat) list \<Rightarrow> nat \<Rightarrow> bool" where
  "outside spans p = list_all (\<lambda>(s, e). p < s \<or> e \<le> p) spans"

text \<open>Where a position outside the spans is found in the composed document: it moves
  by the lengths of what stands in the place of the spans before it.\<close>

fun relocate :: "jsstring \<Rightarrow> nat \<Rightarrow> ((nat \<times> nat) \<times> outcome) list \<Rightarrow> nat \<Rightarrow> nat" where
  "relocate doc c [] p = p - c"
| "relocate doc c ((span, out) # ds) p =
     (if p < fst span then p - c
      else (fst span - c) + length (replaced doc span out) + relocate doc (snd span) ds p)"

section \<open>A platform for closed instances\<close>

text \<open>
  A platform to run the program on: a path module for absolute POSIX paths without a
  trailing slash, a base64 encoder, a file system whose calls succeed, and a page whose
  renderer throws on empty code and wraps any other code in an \<open>svg\<close> element. Its world
  is the number of render calls so far.
\<close>

definition demo_render :: "jsstring \<Rightarrow> nat \<Rightarrow> jsstring thrown \<times> nat" where
  "demo_render code w =
     (if code = [] then (Inl (js ''No diagram type detected''), w + 1)
      else (Inr (js ''<svg>'' @ code @ js ''</svg>''), w + 1))"

definition demo_basename :: "jsstring \<Rightarrow> jsstring" where
  "demo_basename p = rev (takeWhile (\<lambda>c. c \<noteq> 47) (rev p))"

definition demo_extname :: "jsstring \<Rightarrow> jsstring" where
  "demo_extname p =
     (let b = demo_basename p
      in if 46 \<in> set (tl b) then 46 # rev (takeWhile (\<lambda>c. c \<noteq> 46) (rev b)) else [])"

definition demo_basename_ext :: "jsstring \<Rightarrow> jsstring \<Rightarrow> jsstring" where
  "demo_basename_ext p e =
     (let b = demo_basename p
      in if endsWith b e \<and> b \<noteq> e then take (length b - length e) b else b)"

definition demo_base64_digit :: "nat \<Rightarrow> cu" where
  "demo_base64_digit n =
     js ''ABCDEFGHIJKLMNOPQRSTUVWXYZabcdefghijklmnopqrstuvwxyz0123456789+/'' ! n"

fun demo_base64 :: "bytes \<Rightarrow> jsstring" where
  "demo_base64 [] = []"
| "demo_base64 [a] =
     [demo_base64_digit (unat a div 4), demo_base64_digit (unat a mod 4 * 16), 61, 61]"
| "demo_base64 [a, b] =
     [demo_base64_digit (unat a div 4), demo_base64_digit (unat a mod 4 * 16 + unat b div 16),
      demo_base64_digit (unat b mod 16 * 4), 61]"
| "demo_base64 (a # b # c # rest) =
     [demo_base64_digit (unat a div 4), demo_base64_digit (unat a mod 4 * 16 + unat b div 16),
      demo_base64_digit (unat b mod 16 * 4 + unat c div 64), demo_base64_digit (unat c mod 64)]
     @ demo_base64 rest"

text \<open>A document with two diagrams; the code of the second one is empty.\<close>

definition demo_doc :: jsstring where
  "demo_doc = js ''a\<newline>```mermaid\<newline>A\<newline>```\<newline>b\<newline>```mermaid\<newline>\<newline>```\<newline>c''"

text \<open>A document with two diagrams that render, and one with no diagram.\<close>

definition demo_two :: jsstring where
  "demo_two = js ''```mermaid\<newline>A\<newline>```\<newline>```mermaid\<newline>B\<newline>```''"

definition demo_plain :: jsstring where
  "demo_plain = js ''no diagram here''"

definition demo_files :: "jsstring \<Rightarrow> jsstring thrown" where
  "demo_files p =
     (if p = js ''/d/x.md'' then Inr demo_doc
      else if p = js ''/d/architecture.md'' then Inr demo_two
      else if p = js ''/d/plain.md'' then Inr demo_plain
      else Inl (js ''ENOENT''))"

definition demo_platform :: "nat platform" where
  "demo_platform =
     \<lparr> path_join = (\<lambda>a b. a @ js ''/'' @ b),
       path_dirname = (\<lambda>p. rev (tl (dropWhile (\<lambda>c. c \<noteq> 47) (rev p)))),
       path_basename = demo_basename,
       path_basename_ext = demo_basename_ext,
       path_extname = demo_extname,
       buffer_base64 = demo_base64,
       fs_stat_isDirectory = (\<lambda>p w. (Inr False, w)),
       fs_readdir = (\<lambda>p w. Inr []),
       fs_readFile = (\<lambda>p w. (demo_files p, w)),
       fs_mkdir = (\<lambda>p w. (Inr (), w)),
       fs_writeText = (\<lambda>p t w. (Inr (), w)),
       fs_writeBytes = (\<lambda>p b w. (Inr (), w)),
       chromium_launch = (\<lambda>w. (Inr (), w)),
       browser_newPage = (\<lambda>width height factor w. (Inr (), w)),
       page_setContent = (\<lambda>w. (Inr (), w)),
       page_waitForFunction = (\<lambda>timeout w. (Inr (), w)),
       page_evaluate_render = demo_render,
       page_query_svg = (\<lambda>w. (Inr True, w)),
       element_screenshot = (\<lambda>w. (Inr [0xFF, 0xD8, 0xFF, 0xD9], w)),
       page_close = (\<lambda>w. (Inr (), w)),
       browser_close = (\<lambda>w. (Inr (), w)) \<rparr>"

definition demo_config :: "fmt \<Rightarrow> mode \<Rightarrow> config" where
  "demo_config f m = \<lparr> mdPath = js ''/d/x.md'', fmt = f, mode = m, scale = 2 \<rparr>"

definition demo_start :: "nat state" where
  "demo_start = \<lparr> world = 0, trace = [] \<rparr>"


section \<open>Fences\<close>

text \<open>The text \<open>t\<close> stands in the document at index \<open>p\<close>.\<close>

definition has_at :: "jsstring \<Rightarrow> nat \<Rightarrow> jsstring \<Rightarrow> bool" where
  "has_at doc p t = (p + length t \<le> length doc \<and> slice doc p (p + length t) = t)"

text \<open>The index of the closing fence of a match: the three code units before the white
  space that ends the matched text.\<close>

definition closing_fence :: "rmatch \<Rightarrow> nat" where
  "closing_fence m = index m + length (dropWhile is_white_space (rev (full m))) - 3"

text \<open>A document whose opening fence is not at the start of its line, and one whose
  only closing fence is not.\<close>

definition demo_midline :: jsstring where
  "demo_midline = js ''x ```mermaid\<newline>A\<newline>```''"

definition demo_unclosed :: jsstring where
  "demo_unclosed = js ''```mermaid\<newline>A\<newline>x ```''"

section \<open>What the trace shows of the loop\<close>

text \<open>The code handed to the renderer for a match, and the progress message of the turn
  for index \<open>i\<close> among \<open>n\<close> matches.\<close>

definition code_of :: "rmatch list \<Rightarrow> nat \<Rightarrow> jsstring" where
  "code_of matches i = trim (group1 (matches ! i))"

definition progress :: "nat \<Rightarrow> nat \<Rightarrow> jsstring" where
  "progress i n = js ''  ['' @ show_nat (i + 1) @ js ''/'' @ show_nat n @ js ''] ''"

text \<open>The codes of the renderer invocations of a trace, in the order of the calls.\<close>

fun evaluate_code :: "event \<Rightarrow> jsstring option" where
  "evaluate_code (Evaluate code) = Some code"
| "evaluate_code ev = None"

definition rendered_codes :: "event list \<Rightarrow> jsstring list" where
  "rendered_codes es = concat (map (\<lambda>ev. case evaluate_code ev of None \<Rightarrow> [] | Some c \<Rightarrow> [c]) es)"

text \<open>The messages written to the standard output other than \<open>done\<close>.\<close>

fun progress_line :: "event \<Rightarrow> jsstring option" where
  "progress_line (Stdout s) = (if s = js ''done'' @ [LF] then None else Some s)"
| "progress_line ev = None"

definition progress_lines :: "event list \<Rightarrow> jsstring list" where
  "progress_lines es = concat (map (\<lambda>ev. case progress_line ev of None \<Rightarrow> [] | Some s \<Rightarrow> [s]) es)"

definition diagram_code :: "rmatch \<Rightarrow> jsstring" where
  "diagram_code m = trim (group1 m)"

text \<open>The events of a turn after its renderer invocation.\<close>

fun after_render :: "event \<Rightarrow> bool" where
  "after_render QuerySvg = True"
| "after_render Screenshot = True"
| "after_render (WriteBytes path buf) = True"
| "after_render (Stdout s) = (s = js ''done'' @ [LF])"
| "after_render (Stderr s) = True"
| "after_render ev = False"

section \<open>What the trace shows of a file\<close>

text \<open>The names that \<open>processFile\<close> derives from the path of the file, the state of the
  outside after the file was read, the outcomes of its diagrams and the text composed from
  them.\<close>

definition base_of :: "'w platform \<Rightarrow> jsstring \<Rightarrow> jsstring" where
  "base_of pf filePath = path_basename_ext pf filePath (path_extname pf filePath)"

definition mermaidDir_of :: "'w platform \<Rightarrow> jsstring \<Rightarrow> jsstring" where
  "mermaidDir_of pf filePath = path_join pf (path_dirname pf filePath) (js ''mermaid'')"


definition after_read :: "jsstring \<Rightarrow> 'w \<Rightarrow> 'w state \<Rightarrow> 'w state" where
  "after_read filePath w st = \<lparr> world = w, trace = trace st @ [ReadFile filePath] \<rparr>"

definition document_decisions ::
  "config \<Rightarrow> 'w platform \<Rightarrow> jsstring \<Rightarrow> jsstring \<Rightarrow> 'w state \<Rightarrow> outcome list \<times> 'w state" where
  "document_decisions cfg pf filePath content st =
     decisions cfg pf (base_of pf filePath) (mermaidDir_of pf filePath)
       (matchAll content) (length (matchAll content))
       (snd (prepare cfg pf filePath (length (matchAll content)) st))"

definition document_text :: "config \<Rightarrow> 'w platform \<Rightarrow> jsstring \<Rightarrow> jsstring \<Rightarrow> 'w state \<Rightarrow> jsstring" where
  "document_text cfg pf filePath content st =
     compose content
       (zip (map span_of (matchAll content)) (fst (document_decisions cfg pf filePath content st)))"




text \<open>The kinds of events: those of the loop, those of a call whose error ends
  \<open>processFile\<close>, and the messages.\<close>

fun loop_event :: "event \<Rightarrow> bool" where
  "loop_event (Evaluate code) = True"
| "loop_event (Stdout s) = True"
| "loop_event (Stderr s) = True"
| "loop_event QuerySvg = True"
| "loop_event Screenshot = True"
| "loop_event (WriteBytes path buf) = True"
| "loop_event ev = False"


definition warning :: "nat \<Rightarrow> jsstring" where
  "warning n = js ''  Warning: '' @ show_nat n
     @ js '' diagram(s) failed and were left as raw mermaid blocks.'' @ [LF]"

fun is_console :: "event \<Rightarrow> bool" where
  "is_console (Stdout s) = True"
| "is_console (Stderr s) = True"
| "is_console ev = False"

text \<open>The events between two states of the outside.\<close>

definition new_events :: "'w state \<Rightarrow> 'w state \<Rightarrow> event list" where
  "new_events st st' = drop (length (trace st)) (trace st')"

section \<open>References to the images\<close>

text \<open>The name of the image file of the diagram with ordinal \<open>k\<close>, and the references that
  stand in the document for it, as the interface of the tool names them.\<close>

definition image_name :: "jsstring \<Rightarrow> nat \<Rightarrow> jsstring" where
  "image_name name k = name @ js ''-'' @ show_nat k @ js ''.jpg''"

definition file_reference :: "jsstring \<Rightarrow> nat \<Rightarrow> jsstring" where
  "file_reference name k =
     js ''![Diagram '' @ show_nat k @ js ''](./mermaid/'' @ image_name name k @ js '')''"

definition inline_reference :: "nat \<Rightarrow> jsstring \<Rightarrow> jsstring" where
  "inline_reference k encoded =
     js ''![Diagram '' @ show_nat k @ js ''](data:image/jpeg;base64,'' @ encoded @ js '')''"

section \<open>The files of a directory\<close>

text \<open>The entries of a directory tree that are not directories, in the order of the walk,
  each with its path and its name; and the trees whose every listing succeeds.\<close>

fun walk :: "(jsstring \<Rightarrow> jsstring \<Rightarrow> jsstring) \<Rightarrow> jsstring \<Rightarrow> dirent list \<Rightarrow> (jsstring \<times> jsstring) list" where
  "walk join dir [] = []"
| "walk join dir (NonDir name # rest) = (join dir name, name) # walk join dir rest"
| "walk join dir (SubDir name entries # rest) = walk join (join dir name) entries @ walk join dir rest"
| "walk join dir (Unreadable name err # rest) = walk join dir rest"

fun readable :: "dirent list \<Rightarrow> bool" where
  "readable [] = True"
| "readable (NonDir name # rest) = readable rest"
| "readable (SubDir name entries # rest) = (readable entries \<and> readable rest)"
| "readable (Unreadable name err # rest) = False"

definition demo_tree :: "dirent list" where
  "demo_tree =
     [NonDir (js ''a.md''), NonDir (js ''a_mermaid2jpg.md''), NonDir (js ''b.txt''),
      SubDir (js ''notes.md'') [NonDir (js ''c.md''), NonDir (js ''c_mermaid2svg.md'')]]"

section \<open>The scale of the session\<close>

text \<open>The device scale factors of the pages opened in a trace; the texts for which
  \<open>parseInt\<close> finds a number: after white space and one optional sign, a decimal digit;
  and the message of the exit for a scale that is not a number.\<close>

fun opened_pages :: "event list \<Rightarrow> int list" where
  "opened_pages [] = []"
| "opened_pages (NewPage width height factor # es) = factor # opened_pages es"
| "opened_pages (ev # es) = opened_pages es"

definition has_leading_integer :: "jsstring \<Rightarrow> bool" where
  "has_leading_integer s =
     (let t = dropWhile is_white_space s;
          u = (if t \<noteq> [] \<and> (hd t = 43 \<or> hd t = 45) then tl t else t)
      in u \<noteq> [] \<and> is_digit (hd u))"

definition scale_message :: jsstring where
  "scale_message = js ''Error: --scale must be a number (1-4)''"

section \<open>Properties of the composition\<close>

lemma iteration_orchestrate:
  "iteration cfg pf base mermaidDir matches i ls =
     (case orchestrate cfg pf base mermaidDir matches i (ext ls) of
        (out, st1) \<Rightarrow>
          \<lparr> result = (case out of
                        Rendered text \<Rightarrow>
                          take (index (matches ! i)) (result ls) @ text
                            @ drop (index (matches ! i) + length (full (matches ! i))) (result ls)
                      | Failed reason \<Rightarrow> result ls),
            failures = (if is_Failed out then failures ls + 1 else failures ls),
            ext = st1 \<rparr>)"
  by (auto simp add: iteration_def orchestrate_def Let_def slice_def slice_from_def
      split: prod.splits sum.splits)

lemma length_decisions:
  "length (fst (decisions cfg pf base mermaidDir matches i st)) = i"
proof (induction i arbitrary: st)
  case 0
  then show ?case by simp
next
  case (Suc i)
  obtain out st1 where o: "orchestrate cfg pf base mermaidDir matches i st = (out, st1)"
    by (cases "orchestrate cfg pf base mermaidDir matches i st")
  obtain outs st2 where d: "decisions cfg pf base mermaidDir matches i st1 = (outs, st2)"
    by (cases "decisions cfg pf base mermaidDir matches i st1")
  from Suc [of st1] d have "length outs = i" by simp
  with o d show ?case by simp
qed

lemma spans_ok_snoc:
  "spans_ok c (spans @ [(s, e)]) b = (spans_ok c spans s \<and> s \<le> e \<and> e \<le> b)"
  by (induction spans arbitrary: c) auto

lemma spans_ok_le: "spans_ok c spans b \<Longrightarrow> c \<le> b"
  by (induction c spans b rule: spans_ok.induct) auto

lemma compose_upto_snoc:
  "compose_upto doc c (ds @ [(span, out)]) b =
     compose_upto doc c ds (fst span) @ replaced doc span out @ slice doc (snd span) b"
  by (induction ds arbitrary: c) auto

lemma slice_split: "a \<le> m \<Longrightarrow> m \<le> b \<Longrightarrow> slice doc a m @ slice doc m b = slice doc a b"
proof -
  assume am: "a \<le> m" and mb: "m \<le> b"
  have "take ((m - a) + (b - m)) (drop a doc) =
        take (m - a) (drop a doc) @ take (b - m) (drop (m - a) (drop a doc))"
    by (rule take_add)
  moreover have "(m - a) + (b - m) = b - a" using am mb by simp
  moreover have "drop (m - a) (drop a doc) = drop m doc" using am by simp
  ultimately show ?thesis by (simp add: slice_def)
qed

lemma take_map_span: "i < length matches \<Longrightarrow>
   map span_of (take (Suc i) matches) = map span_of (take i matches) @ [span_of (matches ! i)]"
  by (simp add: take_Suc_conv_app_nth)

lemma loop_compose:
  assumes "i \<le> length matches" "spans_ok 0 (map span_of (take i matches)) b" "b \<le> length content"
  shows "processLoop cfg pf base mermaidDir matches i
           \<lparr> result = take b content @ rest, failures = f, ext = st \<rparr> =
         \<lparr> result = compose_upto content 0
                      (zip (map span_of (take i matches))
                           (fst (decisions cfg pf base mermaidDir matches i st))) b @ rest,
           failures = f + length (filter is_Failed (fst (decisions cfg pf base mermaidDir matches i st))),
           ext = snd (decisions cfg pf base mermaidDir matches i st) \<rparr>"
  using assms
proof (induction i arbitrary: b rest f st)
  case 0
  then show ?case by (simp add: slice_def)
next
  case (Suc i)
  obtain out st1 where o: "orchestrate cfg pf base mermaidDir matches i st = (out, st1)"
    by (cases "orchestrate cfg pf base mermaidDir matches i st")
  obtain outs st2 where d: "decisions cfg pf base mermaidDir matches i st1 = (outs, st2)"
    by (cases "decisions cfg pf base mermaidDir matches i st1")
  have len: "length outs = i"
    using length_decisions [of cfg pf base mermaidDir matches i st1] d by simp
  define s where "s = index (matches ! i)"
  define e where "e = index (matches ! i) + length (full (matches ! i))"
  have sp: "span_of (matches ! i) = (s, e)" by (simp add: span_of_def s_def e_def)
  from Suc.prems have i: "i < length matches" by simp
  from Suc.prems(2) have ok: "spans_ok 0 (map span_of (take i matches)) s" "s \<le> e" "e \<le> b"
    by (simp_all add: take_map_span [OF i] sp spans_ok_snoc)
  have sb: "s \<le> length content" using ok Suc.prems(3) by simp
  have zip: "zip (map span_of (take (Suc i) matches)) (outs @ [out]) =
        zip (map span_of (take i matches)) outs @ [((s, e), out)]"
    using len i by (simp add: take_map_span [OF i] sp)
  have tk: "take b content = take s content @ slice content s e @ slice content e b"
  proof -
    have "slice content 0 s @ slice content s e @ slice content e b = slice content 0 b"
      using ok slice_split [of s e b content] slice_split [of 0 s b content] by simp
    then show ?thesis by (simp add: slice_def)
  qed
  have dec: "decisions cfg pf base mermaidDir matches (Suc i) st = (outs @ [out], st2)"
    using o d by simp
  have unroll: "processLoop cfg pf base mermaidDir matches (Suc i) ls0 =
      processLoop cfg pf base mermaidDir matches i (iteration cfg pf base mermaidDir matches i ls0)"
    for ls0 :: "'a loop_state"
    by simp
  have comp: "compose_upto content 0 (zip (map span_of (take (Suc i) matches)) (outs @ [out])) b
      = compose_upto content 0 (zip (map span_of (take i matches)) outs) s
          @ replaced content (s, e) out @ slice content e b"
    by (simp only: zip compose_upto_snoc fst_conv snd_conv)
  show ?case
  proof (cases out)
    case (Rendered rep)
    have a: "take s (take b content @ rest) = take s content"
      using ok sb Suc.prems(3) by (simp add: min_def)
    have "drop e (take b content @ rest) = drop e (take b content) @ rest"
      using ok Suc.prems(3) by simp
    moreover have "drop e (take b content) = slice content e b"
      by (simp add: slice_def drop_take)
    ultimately have r: "take s (take b content @ rest) @ rep @ drop e (take b content @ rest)
           = take s content @ (rep @ slice content e b @ rest)"
      using a by simp
    have "iteration cfg pf base mermaidDir matches i
            \<lparr> result = take b content @ rest, failures = f, ext = st \<rparr> =
          \<lparr> result = take s (take b content @ rest) @ rep @ drop e (take b content @ rest),
            failures = f, ext = st1 \<rparr>"
      using o Rendered by (simp add: iteration_orchestrate s_def e_def)
    then have it: "iteration cfg pf base mermaidDir matches i
            \<lparr> result = take b content @ rest, failures = f, ext = st \<rparr> =
          \<lparr> result = take s content @ (rep @ slice content e b @ rest),
            failures = f, ext = st1 \<rparr>"
      by (simp only: r)
    have ih: "processLoop cfg pf base mermaidDir matches i
           \<lparr> result = take s content @ (rep @ slice content e b @ rest),
             failures = f, ext = st1 \<rparr> = 
          \<lparr> result = compose_upto content 0 (zip (map span_of (take i matches)) outs) s
                       @ (rep @ slice content e b @ rest),
            failures = f + length (filter is_Failed outs), ext = st2 \<rparr>"
      using Suc.IH [of s "rep @ slice content e b @ rest" f st1] i ok sb d by simp
    show ?thesis
      unfolding unroll it ih dec fst_conv snd_conv comp
      using Rendered by simp
  next
    case (Failed reason)
    have "iteration cfg pf base mermaidDir matches i
            \<lparr> result = take b content @ rest, failures = f, ext = st \<rparr> =
          \<lparr> result = take b content @ rest, failures = f + 1, ext = st1 \<rparr>"
      using o Failed by (simp add: iteration_orchestrate)
    then have it: "iteration cfg pf base mermaidDir matches i
            \<lparr> result = take b content @ rest, failures = f, ext = st \<rparr> =
          \<lparr> result = take s content @ (slice content s e @ slice content e b @ rest),
            failures = f + 1, ext = st1 \<rparr>"
      using tk by simp
    have ih: "processLoop cfg pf base mermaidDir matches i
           \<lparr> result = take s content @ (slice content s e @ slice content e b @ rest),
             failures = f + 1, ext = st1 \<rparr> = 
          \<lparr> result = compose_upto content 0 (zip (map span_of (take i matches)) outs) s
                       @ (slice content s e @ slice content e b @ rest),
            failures = f + 1 + length (filter is_Failed outs), ext = st2 \<rparr>"
      using Suc.IH [of s "slice content s e @ slice content e b @ rest" "f + 1" st1] i ok sb d
      by simp
    show ?thesis
      unfolding unroll it ih dec fst_conv snd_conv comp
      using Failed by simp
  qed
qed


lemma length_slice: "b \<le> length doc \<Longrightarrow> length (slice doc a b) = b - a"
  by (simp add: slice_def)

lemma nth_slice: "b \<le> length doc \<Longrightarrow> a \<le> p \<Longrightarrow> p < b \<Longrightarrow> slice doc a b ! (p - a) = doc ! p"
  by (simp add: slice_def)

lemma relocate_nth:
  assumes "spans_ok c (map fst ds) b" "b \<le> length doc" "c \<le> p" "p < b" "outside (map fst ds) p"
  shows "relocate doc c ds p < length (compose_upto doc c ds b)
         \<and> compose_upto doc c ds b ! relocate doc c ds p = doc ! p"
  using assms
proof (induction ds arbitrary: c)
  case Nil
  then show ?case by (simp add: length_slice nth_slice)
next
  case (Cons d ds)
  obtain s e out where d: "d = ((s, e), out)" by (cases d) auto
  from Cons.prems d have ok: "c \<le> s" "s \<le> e" "spans_ok e (map fst ds) b" by simp_all
  from spans_ok_le [OF ok(3)] have eb: "e \<le> b" .
  with ok Cons.prems(2) have sl: "s \<le> length doc" by simp
  have l1: "length (slice doc c s) = s - c" using sl by (rule length_slice)
  from Cons.prems(5) d have out: "p < s \<or> e \<le> p" "outside (map fst ds) p"
    by (simp_all add: outside_def)
  show ?case
  proof (cases "p < s")
    case True
    have lt: "p - c < s - c" using True Cons.prems(3) by arith
    have "compose_upto doc c (d # ds) b ! (p - c) = slice doc c s ! (p - c)"
      using lt l1 d by (simp add: nth_append)
    also have "\<dots> = doc ! p"
      using nth_slice [OF sl Cons.prems(3) True] .
    finally show ?thesis using True d l1 lt by simp
  next
    case False
    with out have ep: "e \<le> p" by simp
    from Cons.IH [OF ok(3) Cons.prems(2) ep Cons.prems(4) out(2)]
    have ih: "relocate doc e ds p < length (compose_upto doc e ds b)"
      "compose_upto doc e ds b ! relocate doc e ds p = doc ! p" by simp_all
    define A where "A = slice doc c s @ replaced doc (s, e) out"
    have r: "relocate doc c (d # ds) p = length A + relocate doc e ds p"
      using False d l1 by (simp add: A_def)
    have cu: "compose_upto doc c (d # ds) b = A @ compose_upto doc e ds b"
      using d by (simp add: A_def)
    have "(A @ compose_upto doc e ds b) ! (length A + relocate doc e ds p) = doc ! p"
      using ih(2) by (simp only: nth_append_length_plus)
    moreover have "length A + relocate doc e ds p < length (A @ compose_upto doc e ds b)"
      using ih(1) by simp
    ultimately show ?thesis
      by (simp only: r cu)
  qed
qed

lemma relocate_mono:
  assumes "spans_ok c (map fst ds) b" "b \<le> length doc" "c \<le> p" "p < q"
    "outside (map fst ds) p" "outside (map fst ds) q"
  shows "relocate doc c ds p < relocate doc c ds q"
  using assms
proof (induction ds arbitrary: c)
  case Nil
  then show ?case by simp
next
  case (Cons d ds)
  obtain s e out where d: "d = ((s, e), out)" by (cases d) auto
  from Cons.prems d have ok: "c \<le> s" "s \<le> e" "spans_ok e (map fst ds) b" by simp_all
  from Cons.prems(5,6) d have out: "p < s \<or> e \<le> p" "outside (map fst ds) p"
      "q < s \<or> e \<le> q" "outside (map fst ds) q"
    by (simp_all add: outside_def)
  show ?case
  proof (cases "p < s")
    case True
    then show ?thesis using d Cons.prems(3,4) ok by auto
  next
    case False
    with out have ep: "e \<le> p" by simp
    with Cons.prems(4) ok have nq: "\<not> q < s" by simp
    from Cons.IH [OF ok(3) Cons.prems(2) ep Cons.prems(4) out(2) out(4)]
    show ?thesis using False nq d by simp
  qed
qed


lemma map_fst_zip_decisions:
  "map fst (zip (map span_of matches)
      (fst (decisions cfg pf base mermaidDir matches (length matches) st))) = map span_of matches"
  by (simp add: length_decisions)

lemmas regex_eval =
  matchAll_def match_all.simps regexp_exec.simps match_at_def MERMAID_RE_def js_def LF_def
  rep_greedy.simps rep_lazy.simps is_white_space_def is_line_terminator_def mk_match_def
  slice_def at_line_start_def at_line_end_def

lemmas demo_eval =
  js_def LF_def is_white_space_def is_line_terminator_def slice_def slice_from_def
  demo_doc_def demo_config_def demo_platform_def demo_render_def demo_start_def
  span_of_def compose_def orchestrate_def render_replacement_def renderDiagram_def call_def
  emit_def stdout_write_def console_log_def console_error_def console_warn_def trim_def
  show_nat.simps digit_cu_def Let_def

lemma demo_matches:
  "matchAll demo_doc =
     [\<lparr> index = 2,
        full = [96, 96, 96, 109, 101, 114, 109, 97, 105, 100, 10, 65, 10, 96, 96, 96],
        group1 = [65, 10] \<rparr>,
      \<lparr> index = 21,
        full = [96, 96, 96, 109, 101, 114, 109, 97, 105, 100, 10, 10, 96, 96, 96],
        group1 = [10] \<rparr>]"
  by (simp add: regex_eval demo_doc_def)

section \<open>Offset safety of the replacement\<close>

text \<open>
  C1. For every document text and every list of matches whose spans are start-sorted,
  non-overlapping and within the document, whatever the renderer returns or throws: the
  \<open>result\<close> that the reverse loop of \<open>processFile\<close> builds by splicing is the document
  composed from left to right, with the replacement text in the place of each rendered
  span and the slice of the document itself in the place of each failed one. Every
  position of the document outside the spans is found in the result, with the code unit
  it had, at the position that the lengths of the replacements before it imply, and two
  such positions keep their order.
\<close>

theorem offset_safety:
  assumes "spans_ok 0 (map span_of matches) (length content)"
  shows "let ds = zip (map span_of matches)
                    (fst (decisions cfg pf base mermaidDir matches (length matches) st));
             out = result (processLoop cfg pf base mermaidDir matches (length matches)
                             \<lparr> result = content, failures = 0, ext = st \<rparr>)
         in out = compose content ds
            \<and> (\<forall>p. p < length content \<and> outside (map span_of matches) p \<longrightarrow>
                  relocate content 0 ds p < length out
                  \<and> out ! relocate content 0 ds p = content ! p)
            \<and> (\<forall>p q. p < q \<and> q < length content
                    \<and> outside (map span_of matches) p \<and> outside (map span_of matches) q \<longrightarrow>
                  relocate content 0 ds p < relocate content 0 ds q)"
proof -
  define ds where "ds = zip (map span_of matches)
      (fst (decisions cfg pf base mermaidDir matches (length matches) st))"
  define out where "out = result (processLoop cfg pf base mermaidDir matches (length matches)
      \<lparr> result = content, failures = 0, ext = st \<rparr>)"
  have fst_ds: "map fst ds = map span_of matches"
    unfolding ds_def by (rule map_fst_zip_decisions)
  have "processLoop cfg pf base mermaidDir matches (length matches)
          \<lparr> result = take (length content) content @ [], failures = 0, ext = st \<rparr> =
        \<lparr> result = compose_upto content 0
                     (zip (map span_of (take (length matches) matches))
                        (fst (decisions cfg pf base mermaidDir matches (length matches) st)))
                     (length content) @ [],
          failures = 0 + length (filter is_Failed
                        (fst (decisions cfg pf base mermaidDir matches (length matches) st))),
          ext = snd (decisions cfg pf base mermaidDir matches (length matches) st) \<rparr>"
    using assms by (intro loop_compose) simp_all
  then have eq: "out = compose content ds"
    by (simp add: out_def ds_def compose_def)
  have ok: "spans_ok 0 (map fst ds) (length content)"
    using assms fst_ds by simp
  have nth: "relocate content 0 ds p < length out \<and> out ! relocate content 0 ds p = content ! p"
    if "p < length content" "outside (map span_of matches) p" for p
    using relocate_nth [OF ok, of content p] that fst_ds eq by (simp add: compose_def)
  have mono: "relocate content 0 ds p < relocate content 0 ds q"
    if "p < q" "q < length content" "outside (map span_of matches) p"
      "outside (map span_of matches) q" for p q
    using relocate_mono [OF ok, of content p q] that fst_ds by simp
  show ?thesis
    unfolding Let_def ds_def [symmetric] out_def [symmetric]
    using eq nth mono by blast
qed

theorem offset_safety_witness:
  "spans_ok 0 (map span_of (matchAll demo_doc)) (length demo_doc)
   \<and> result (processLoop (demo_config Svg B64) demo_platform (js ''x'') (js ''/d/mermaid'')
               (matchAll demo_doc) (length (matchAll demo_doc))
               \<lparr> result = demo_doc, failures = 0, ext = demo_start \<rparr>)
     = js ''a\<newline>\<newline><svg>A</svg>\<newline>\<newline>b\<newline>```mermaid\<newline>\<newline>```\<newline>c''"
proof -
  have h: "spans_ok 0 (map span_of (matchAll demo_doc)) (length demo_doc)"
    by (simp add: demo_matches span_of_def) (simp add: demo_doc_def js_def)
  have c: "compose demo_doc (zip (map span_of (matchAll demo_doc))
        (fst (decisions (demo_config Svg B64) demo_platform (js ''x'') (js ''/d/mermaid'')
                (matchAll demo_doc) (length (matchAll demo_doc)) demo_start)))
      = js ''a\<newline>\<newline><svg>A</svg>\<newline>\<newline>b\<newline>```mermaid\<newline>\<newline>```\<newline>c''"
    by (simp add: demo_matches numeral_2_eq_2) (simp add: demo_eval)
  show ?thesis
    using h offset_safety [OF h, of "demo_config Svg B64" demo_platform "js ''x''"
        "js ''/d/mermaid''" demo_start] c
    by (simp add: Let_def)
qed

section \<open>The locator\<close>

lemma has_at_Nil: "p \<le> length doc \<Longrightarrow> has_at doc p []"
  by (simp add: has_at_def slice_def)

lemma has_at_Cons:
  "p < length doc \<Longrightarrow> doc ! p = d \<Longrightarrow> has_at doc (p + 1) ds \<Longrightarrow> has_at doc p (d # ds)"
  by (simp add: has_at_def slice_def Cons_nth_drop_Suc [symmetric])

lemma lits_sem:
  "sem (lits t r) inp (e, cap) y \<Longrightarrow> e \<le> length inp \<Longrightarrow>
     has_at inp e t \<and> sem r inp (e + length t, cap) y"
proof (induction t arbitrary: e)
  case Nil
  then show ?case by (simp add: has_at_Nil)
next
  case (Cons d ds)
  from Cons.prems(1) have a: "e < length inp" "inp ! e = d" "sem (lits ds r) inp (e + 1, cap) y"
    by auto
  from Cons.IH [OF a(3)] a(1) have "has_at inp (e + 1) ds" "sem r inp (e + 1 + length ds, cap) y"
    by simp_all
  with a show ?case by (simp add: has_at_Cons add.commute add.left_commute)
qed

lemma length_js: "length (js t) = length t"
  by (simp add: js_def)

lemma sem_SeqE:
  assumes "sem (Seq r1 r2) inp x y"
  obtains m where "sem r1 inp x m" "sem r2 inp m y"
  using assms sem.simps(6) by blast

lemma sem_StarE:
  assumes "sem (Star a g) inp (e, cap) y"
  obtains e' where "y = (e', cap)" "e \<le> e'"
    "\<forall>i. e \<le> i \<and> i < e' \<longrightarrow> i < length inp \<and> atom_ok a (inp ! i)"
  using assms by auto

lemma star_end_le:
  assumes "e \<le> length inp" "e \<le> e'" "\<forall>i. e \<le> i \<and> i < e' \<longrightarrow> i < length inp \<and> P i"
  shows "e' \<le> length inp"
proof (cases "e = e'")
  case True
  with assms(1) show ?thesis by simp
next
  case False
  with assms(2) have "e \<le> e' - 1 \<and> e' - 1 < e'" by arith
  with assms(3) have "e' - 1 < length inp" by blast
  then show ?thesis by arith
qed

lemma mermaid_sem:
  assumes "sem MERMAID_RE inp (s, None) z" "s \<le> length inp"
  shows "at_line_start inp s \<and> has_at inp s (js ''```mermaid'')
     \<and> (\<exists>q p. s + 10 \<le> q \<and> q < length inp \<and> inp ! q = LF
            \<and> (\<forall>i. s + 10 \<le> i \<and> i < q \<longrightarrow> inp ! i \<noteq> LF)
            \<and> q < p \<and> snd z = Some (q + 1, p)
            \<and> at_line_start inp p \<and> has_at inp p (js ''```'')
            \<and> p + 3 \<le> fst z \<and> fst z \<le> length inp
            \<and> (\<forall>i. p + 3 \<le> i \<and> i < fst z \<longrightarrow> is_white_space (inp ! i))
            \<and> at_line_end inp (fst z))"
proof -
  let ?r5 = "Seq (Star (ClassEscape ClassWhite) True) Eol"
  let ?r4 = "Seq Bol (lits (js ''```'') ?r5)"
  let ?r3 = "Seq (Group (Star (CharSet False [ClassWhite, ClassNonWhite]) False)) ?r4"
  let ?r2 = "Seq (Atom (PatChar LF)) ?r3"
  let ?r1 = "Seq (Star (CharSet True [ClassChar LF]) True) ?r2"
  from assms(1) have "sem (Seq Bol (lits (js ''```mermaid'') ?r1)) inp (s, None) z"
    by (simp only: MERMAID_RE_def)
  then obtain m0 where m0: "sem Bol inp (s, None) m0"
    and a: "sem (lits (js ''```mermaid'') ?r1) inp m0 z"
    by (rule sem_SeqE)
  from m0 have ls: "at_line_start inp s" and m0': "m0 = (s, None)" by simp_all
  have l10: "length (js ''```mermaid'') = 10" and l3: "length (js ''```'') = 3"
    by (simp_all add: length_js)
  from lits_sem [OF a [unfolded m0'] assms(2)]
  have open_fence: "has_at inp s (js ''```mermaid'')" and b: "sem ?r1 inp (s + 10, None) z"
    by (simp_all only: l10)
  have s10: "s + 10 \<le> length inp"
    using open_fence by (simp add: has_at_def length_js)
  from b obtain m1 where m1: "sem (Star (CharSet True [ClassChar LF]) True) inp (s + 10, None) m1"
    and b2: "sem ?r2 inp m1 z"
    by (rule sem_SeqE)
  from m1 obtain q where q: "m1 = (q, None)" "s + 10 \<le> q"
      "\<forall>i. s + 10 \<le> i \<and> i < q \<longrightarrow> i < length inp \<and> atom_ok (CharSet True [ClassChar LF]) (inp ! i)"
    by (rule sem_StarE)
  from q(3) have qn: "\<forall>i. s + 10 \<le> i \<and> i < q \<longrightarrow> inp ! i \<noteq> LF" by simp
  from b2 obtain m2 where m2: "sem (Atom (PatChar LF)) inp m1 m2" and b3: "sem ?r3 inp m2 z"
    by (rule sem_SeqE)
  from m2 q(1) have ql: "q < length inp" "inp ! q = LF" and m2': "m2 = (q + 1, None)"
    by simp_all
  from b3 obtain m3 where m3: "sem (Group (Star (CharSet False [ClassWhite, ClassNonWhite]) False)) inp m2 m3"
    and b4: "sem ?r4 inp m3 z"
    by (rule sem_SeqE)
  from m3 m2' obtain p where p: "m3 = (p, Some (q + 1, p))" "q + 1 \<le> p"
      "\<forall>i. q + 1 \<le> i \<and> i < p \<longrightarrow> i < length inp"
    by auto
  have pl: "p \<le> length inp"
    using star_end_le [of "q + 1" inp p "\<lambda>i. True"] ql(1) p(2,3) by simp
  from b4 obtain m4 where m4: "sem Bol inp m3 m4"
    and b5: "sem (lits (js ''```'') ?r5) inp m4 z"
    by (rule sem_SeqE)
  from m4 p(1) have pls: "at_line_start inp p" and m4': "m4 = (p, Some (q + 1, p))" by simp_all
  from lits_sem [OF b5 [unfolded m4'] pl]
  have close_fence: "has_at inp p (js ''```'')"
    and b6: "sem ?r5 inp (p + 3, Some (q + 1, p)) z"
    by (simp_all only: l3)
  have p3: "p + 3 \<le> length inp"
    using close_fence by (simp add: has_at_def length_js)
  from b6 obtain m5 where m5: "sem (Star (ClassEscape ClassWhite) True) inp (p + 3, Some (q + 1, p)) m5"
    and b7: "sem Eol inp m5 z"
    by (rule sem_SeqE)
  from m5 obtain e' where e': "m5 = (e', Some (q + 1, p))" "p + 3 \<le> e'"
      "\<forall>i. p + 3 \<le> i \<and> i < e' \<longrightarrow> i < length inp \<and> atom_ok (ClassEscape ClassWhite) (inp ! i)"
    by (rule sem_StarE)
  from e'(3) have ws: "\<forall>i. p + 3 \<le> i \<and> i < e' \<longrightarrow> is_white_space (inp ! i)" by simp
  have el: "e' \<le> length inp"
    using star_end_le [OF p3 e'(2), of "\<lambda>i. atom_ok (ClassEscape ClassWhite) (inp ! i)"] e'(3)
    by simp
  from b7 e'(1) have z: "z = (e', Some (q + 1, p))" and le: "at_line_end inp e'" by simp_all
  have "s + 10 \<le> q \<and> q < length inp \<and> inp ! q = LF
            \<and> (\<forall>i. s + 10 \<le> i \<and> i < q \<longrightarrow> inp ! i \<noteq> LF)
            \<and> q < p \<and> snd z = Some (q + 1, p)
            \<and> at_line_start inp p \<and> has_at inp p (js ''```'')
            \<and> p + 3 \<le> fst z \<and> fst z \<le> length inp
            \<and> (\<forall>i. p + 3 \<le> i \<and> i < fst z \<longrightarrow> is_white_space (inp ! i))
            \<and> at_line_end inp (fst z)"
    using q(2) ql qn p(2) z pls close_fence e'(2) el ws le by simp
  then show ?thesis using ls open_fence by blast
qed


lemma span_of_mk_match:
  "s \<le> fst z \<Longrightarrow> fst z \<le> length inp \<Longrightarrow> span_of (mk_match inp s z) = (s, fst z)"
  by (simp add: span_of_def mk_match_def slice_def)

lemma match_all_unfold:
  "regexp_exec r inp li = Some (s, z) \<Longrightarrow>
     match_all r inp li =
       mk_match inp s z # match_all r inp (if fst z = s then fst z + 1 else fst z)"
  "regexp_exec r inp li = None \<Longrightarrow> match_all r inp li = []"
  by (simp_all add: match_all.simps [of r inp li])

lemma match_all_elem:
  "m \<in> set (match_all r inp li) \<Longrightarrow>
     \<exists>s z. li \<le> s \<and> s \<le> length inp \<and> match_at r inp s = Some z \<and> m = mk_match inp s z"
proof (induction r inp li rule: match_all.induct)
  case (1 r inp li)
  show ?case
  proof (cases "regexp_exec r inp li")
    case None
    with "1.prems" show ?thesis by (simp add: match_all_unfold)
  next
    case (Some sz)
    obtain s z where sz: "sz = (s, z)" by (cases sz)
    with Some have ex: "regexp_exec r inp li = Some (s, z)" by simp
    from regexp_exec_Some [OF ex] have b: "li \<le> s" "s \<le> length inp" "match_at r inp s = Some z"
      by simp_all
    from match_at_bounds(1) [OF b(3)] have sz_le: "s \<le> fst z" .
    from "1.prems" ex
    have "m = mk_match inp s z \<or> m \<in> set (match_all r inp (if fst z = s then fst z + 1 else fst z))"
      by (simp add: match_all_unfold)
    then show ?thesis
    proof
      assume "m = mk_match inp s z"
      with b show ?thesis by blast
    next
      assume "m \<in> set (match_all r inp (if fst z = s then fst z + 1 else fst z))"
      from "1.IH" [OF Some sz [symmetric] this]
      obtain s' z' where n: "(if fst z = s then fst z + 1 else fst z) \<le> s'" "s' \<le> length inp"
          "match_at r inp s' = Some z'" "m = mk_match inp s' z'"
        by blast
      from n(1) sz_le b(1) have "li \<le> s'" by (auto split: if_splits)
      with n show ?thesis by blast
    qed
  qed
qed

lemma match_all_spans_ok:
  "c \<le> li \<Longrightarrow> c \<le> length inp \<Longrightarrow> spans_ok c (map span_of (match_all r inp li)) (length inp)"
proof (induction r inp li arbitrary: c rule: match_all.induct)
  case (1 r inp li)
  show ?case
  proof (cases "regexp_exec r inp li")
    case None
    with "1.prems" show ?thesis by (simp add: match_all_unfold)
  next
    case (Some sz)
    obtain s z where sz: "sz = (s, z)" by (cases sz)
    with Some have ex: "regexp_exec r inp li = Some (s, z)" by simp
    from regexp_exec_Some [OF ex] have b: "li \<le> s" "s \<le> length inp" "match_at r inp s = Some z"
      by simp_all
    from match_at_bounds [OF b(3)] b(2) have z: "s \<le> fst z" "fst z \<le> length inp" by simp_all
    have "fst z \<le> (if fst z = s then fst z + 1 else fst z)" by simp
    from "1.IH" [OF Some sz [symmetric] this z(2)]
    have "spans_ok (fst z) (map span_of (match_all r inp (if fst z = s then fst z + 1 else fst z)))
            (length inp)" .
    with "1.prems" b z show ?thesis
      by (simp add: match_all_unfold(1) [OF ex] span_of_mk_match)
  qed
qed

lemma match_all_sorted:
  "sorted_wrt (\<lambda>a b. fst a < fst b \<and> snd a \<le> fst b) (map span_of (match_all r inp li))"
proof (induction r inp li rule: match_all.induct)
  case (1 r inp li)
  show ?case
  proof (cases "regexp_exec r inp li")
    case None
    then show ?thesis by (simp add: match_all_unfold)
  next
    case (Some sz)
    obtain s z where sz: "sz = (s, z)" by (cases sz)
    with Some have ex: "regexp_exec r inp li = Some (s, z)" by simp
    from regexp_exec_Some [OF ex] have b: "li \<le> s" "s \<le> length inp" "match_at r inp s = Some z"
      by simp_all
    from match_at_bounds [OF b(3)] b(2) have z: "s \<le> fst z" "fst z \<le> length inp" by simp_all
    let ?li = "if fst z = s then fst z + 1 else fst z"
    have later: "s < fst (span_of m) \<and> fst z \<le> fst (span_of m)"
      if "m \<in> set (match_all r inp ?li)" for m
    proof -
      from match_all_elem [OF that] obtain s' where "?li \<le> s'" "index m = s'"
        by (auto simp add: mk_match_def)
      with z(1) show ?thesis by (auto simp add: span_of_def split: if_splits)
    qed
    from "1.IH" [OF Some sz [symmetric]] later z
    show ?thesis
      by (simp add: match_all_unfold(1) [OF ex] span_of_mk_match)
  qed
qed

lemma matchAll_elem:
  assumes "m \<in> set (matchAll doc)"
  obtains s z where "s \<le> length doc" "match_at MERMAID_RE doc s = Some z" "m = mk_match doc s z"
  using match_all_elem [of m MERMAID_RE doc 0] assms unfolding matchAll_def by blast

text \<open>
  C7. For every document, the spans of the matches of \<open>matchAll\<close>, in the order of
  discovery, have \<open>start \<le> end\<close> and end within the document; for any two of them the
  earlier one starts strictly before the later one and ends at or before its start; and
  each span is where the matched text stands in the document.
\<close>

lemma matchAll_span:
  assumes "m \<in> set (matchAll content)"
  shows "fst (span_of m) \<le> snd (span_of m) \<and> snd (span_of m) \<le> length content
        \<and> full m = slice content (fst (span_of m)) (snd (span_of m))"
proof -
  from assms obtain s z where sz: "s \<le> length content" "match_at MERMAID_RE content s = Some z"
      "m = mk_match content s z"
    by (rule matchAll_elem)
  from match_at_bounds [OF sz(2)] sz(1) have z: "s \<le> fst z" "fst z \<le> length content"
    by simp_all
  have "span_of m = (s, fst z)" using sz(3) z by (simp add: span_of_mk_match)
  moreover have "full m = slice content s (fst z)" using sz(3) by (simp add: mk_match_def)
  ultimately show ?thesis using z by simp
qed

lemma matchAll_sorted:
  "sorted_wrt (\<lambda>a b. fst a < fst b \<and> snd a \<le> fst b) (map span_of (matchAll content))"
  unfolding matchAll_def by (rule match_all_sorted)

lemma matchAll_spans_ok: "spans_ok 0 (map span_of (matchAll content)) (length content)"
  unfolding matchAll_def by (rule match_all_spans_ok) simp_all

theorem span_invariant:
  "let spans = map span_of (matchAll content)
   in (\<forall>sp \<in> set spans. fst sp \<le> snd sp \<and> snd sp \<le> length content)
      \<and> sorted_wrt (\<lambda>a b. fst a < fst b \<and> snd a \<le> fst b) spans
      \<and> spans_ok 0 spans (length content)
      \<and> (\<forall>m \<in> set (matchAll content).
            full m = slice content (fst (span_of m)) (snd (span_of m)))"
  unfolding Let_def
  using matchAll_span [of _ content] matchAll_sorted [of content] matchAll_spans_ok [of content]
  by auto

theorem span_invariant_witness:
  "map span_of (matchAll demo_doc) = [(2, 18), (21, 36)]
   \<and> sorted_wrt (\<lambda>a b. fst a < fst b \<and> snd a \<le> fst b) (map span_of (matchAll demo_doc))
   \<and> spans_ok 0 (map span_of (matchAll demo_doc)) (length demo_doc)"
proof -
  have "map span_of (matchAll demo_doc) = [(2, 18), (21, 36)]"
    by (simp add: demo_matches span_of_def)
  moreover from span_invariant [of demo_doc]
  have "sorted_wrt (\<lambda>a b. fst a < fst b \<and> snd a \<le> fst b) (map span_of (matchAll demo_doc))
      \<and> spans_ok 0 (map span_of (matchAll demo_doc)) (length demo_doc)"
    unfolding Let_def by blast
  ultimately show ?thesis by blast
qed


lemma has_at_nth: "has_at doc p t \<Longrightarrow> i < length t \<Longrightarrow> doc ! (p + i) = t ! i"
proof -
  assume h: "has_at doc p t" and i: "i < length t"
  from h have le: "p + length t \<le> length doc" and eq: "take (length t) (drop p doc) = t"
    by (simp_all add: has_at_def slice_def)
  have "take (length t) (drop p doc) ! i = doc ! (p + i)"
    using i le by simp
  then show ?thesis by (simp only: eq)
qed

lemma set_slice:
  assumes "x \<in> set (slice doc a b)" "b \<le> length doc"
  shows "\<exists>i. a \<le> i \<and> i < b \<and> x = doc ! i"
proof -
  from assms(1) obtain k where k: "k < length (slice doc a b)" "x = slice doc a b ! k"
    by (auto simp add: in_set_conv_nth)
  from k(1) assms(2) have kb: "k < b - a" by (simp add: slice_def)
  then have "slice doc a b ! k = doc ! (a + k)" using assms(2) by (simp add: slice_def)
  with k kb show ?thesis by (intro exI [of _ "a + k"]) simp
qed

lemma closing_fence_eq:
  assumes "s \<le> p" "p + 3 \<le> e" "e \<le> length doc" "has_at doc p (js ''```'')"
    "\<forall>i. p + 3 \<le> i \<and> i < e \<longrightarrow> is_white_space (doc ! i)"
    "index m = s" "full m = slice doc s e"
  shows "closing_fence m = p"
proof -
  let ?A = "slice doc s (p + 3)" and ?B = "slice doc (p + 3) e"
  have split: "slice doc s e = ?A @ ?B"
    using slice_split [of s "p + 3" e doc] assms(1,2) by simp
  have ws: "\<And>x. x \<in> set (rev ?B) \<Longrightarrow> is_white_space x"
    using set_slice [of _ doc "p + 3" e] assms(3,5) by auto
  have lenA: "length ?A = p + 3 - s" using assms(2,3) by (simp add: length_slice)
  then have ne: "?A \<noteq> []" using assms(1) by auto
  have "last ?A = ?A ! (p + 2 - s)"
    using ne lenA assms(1) by (simp add: last_conv_nth)
  also have "\<dots> = doc ! (p + 2)"
    using nth_slice [of "p + 3" doc s "p + 2"] assms(1,2,3) by simp
  also have "\<dots> = 96"
    using has_at_nth [OF assms(4), of 2] by (simp add: js_def)
  finally have "\<not> is_white_space (last ?A)"
    by (simp add: is_white_space_def is_line_terminator_def)
  then have "dropWhile is_white_space (rev ?A) = rev ?A"
    using ne by (cases ?A rule: rev_cases) simp_all
  moreover have "dropWhile is_white_space (rev ?B @ rev ?A) = dropWhile is_white_space (rev ?A)"
    using ws by (rule dropWhile_append2)
  ultimately have "dropWhile is_white_space (rev (slice doc s e)) = rev ?A"
    by (simp add: split)
  then show ?thesis
    using assms(1,6,7) lenA by (simp add: closing_fence_def)
qed

text \<open>
  C6. For every document: each match opens at a fence that stands at the start of a line
  and closes at a fence that stands at the start of a later line, so a fence in the
  middle of a line is neither boundary of any match; when no fence after an index stands
  at the start of a line, no match opens at that index; and when no opening fence stands
  at the start of a line, the sequence of matches is empty. Lines are those of the \<open>m\<close>
  flag: they end at LF, CR, U+2028 and U+2029.
\<close>

theorem fence_anchoring:
  "(\<forall>m \<in> set (matchAll doc).
       at_line_start doc (index m) \<and> has_at doc (index m) (js ''```mermaid'')
       \<and> index m < closing_fence m
       \<and> at_line_start doc (closing_fence m) \<and> has_at doc (closing_fence m) (js ''```''))
   \<and> (\<forall>s. (\<forall>p. s < p \<and> has_at doc p (js ''```'') \<longrightarrow> \<not> at_line_start doc p) \<longrightarrow>
          (\<forall>m \<in> set (matchAll doc). index m \<noteq> s))
   \<and> ((\<forall>p. has_at doc p (js ''```mermaid'') \<longrightarrow> \<not> at_line_start doc p) \<longrightarrow> matchAll doc = [])"
proof -
  have a: "at_line_start doc (index m) \<and> has_at doc (index m) (js ''```mermaid'')
       \<and> index m < closing_fence m
       \<and> at_line_start doc (closing_fence m) \<and> has_at doc (closing_fence m) (js ''```'')"
    if "m \<in> set (matchAll doc)" for m
  proof -
    from that obtain s z where sz: "s \<le> length doc" "match_at MERMAID_RE doc s = Some z"
        "m = mk_match doc s z"
      by (rule matchAll_elem)
    from mermaid_sem [OF match_at_sem [OF sz(2)] sz(1)]
    obtain q p where f: "at_line_start doc s" "has_at doc s (js ''```mermaid'')"
        "s + 10 \<le> q" "q < p" "at_line_start doc p" "has_at doc p (js ''```'')"
        "p + 3 \<le> fst z" "fst z \<le> length doc"
        "\<forall>i. p + 3 \<le> i \<and> i < fst z \<longrightarrow> is_white_space (doc ! i)"
      by blast
    have im: "index m = s" "full m = slice doc s (fst z)"
      using sz(3) by (simp_all add: mk_match_def)
    have sp: "s \<le> p" "s < p" using f(3,4) by simp_all
    have "closing_fence m = p"
      using closing_fence_eq [OF sp(1) f(7) f(8) f(6) f(9) im] .
    with f im sp show ?thesis by simp
  qed
  have b: "index m \<noteq> s"
    if h: "\<forall>p. s < p \<and> has_at doc p (js ''```'') \<longrightarrow> \<not> at_line_start doc p"
      and m: "m \<in> set (matchAll doc)" for s m
  proof
    assume "index m = s"
    with a [OF m] have "s < closing_fence m" "has_at doc (closing_fence m) (js ''```'')"
        "at_line_start doc (closing_fence m)"
      by simp_all
    with h show False by blast
  qed
  have c: "matchAll doc = []"
    if h: "\<forall>p. has_at doc p (js ''```mermaid'') \<longrightarrow> \<not> at_line_start doc p"
  proof (cases "matchAll doc")
    case Nil
    then show ?thesis .
  next
    case (Cons m ms)
    then have "m \<in> set (matchAll doc)" by simp
    from a [OF this] h show ?thesis by blast
  qed
  from a b c show ?thesis by blast
qed


lemma has_at_in_range: "has_at doc p t \<Longrightarrow> p \<in> set [0..<Suc (length doc)]"
  by (auto simp add: has_at_def)

lemma no_later_fence_by_scan:
  assumes "list_all (\<lambda>p. \<not> (s < p \<and> has_at doc p t \<and> at_line_start doc p)) [0..<Suc (length doc)]"
  shows "\<forall>p. s < p \<and> has_at doc p t \<longrightarrow> \<not> at_line_start doc p"
  using assms has_at_in_range [of doc _ t] unfolding list_all_iff by blast

lemma no_fence_by_scan:
  assumes "list_all (\<lambda>p. \<not> (has_at doc p t \<and> at_line_start doc p)) [0..<Suc (length doc)]"
  shows "\<forall>p. has_at doc p t \<longrightarrow> \<not> at_line_start doc p"
  using assms has_at_in_range [of doc _ t] unfolding list_all_iff by blast

lemmas scan_eval =
  js_def has_at_def slice_def at_line_start_def is_line_terminator_def

theorem fence_anchoring_witness:
  "map index (matchAll demo_doc) = [2, 21]
   \<and> map closing_fence (matchAll demo_doc) = [15, 33]
   \<and> list_all (\<lambda>m. at_line_start demo_doc (index m) \<and> at_line_start demo_doc (closing_fence m))
        (matchAll demo_doc)
   \<and> list_all (\<lambda>m. index m \<noteq> 0) (matchAll demo_unclosed)
   \<and> matchAll demo_midline = []"
proof -
  have a: "map index (matchAll demo_doc) = [2, 21]"
      "map closing_fence (matchAll demo_doc) = [15, 33]"
    by (simp_all add: demo_matches closing_fence_def is_white_space_def is_line_terminator_def)
  have b: "list_all (\<lambda>m. at_line_start demo_doc (index m) \<and> at_line_start demo_doc (closing_fence m))
        (matchAll demo_doc)"
    using fence_anchoring [of demo_doc] by (simp add: list_all_iff)
  have "\<forall>p. 0 < p \<and> has_at demo_unclosed p (js ''```'') \<longrightarrow> \<not> at_line_start demo_unclosed p"
    by (rule no_later_fence_by_scan) (simp add: demo_unclosed_def scan_eval)
  with fence_anchoring [of demo_unclosed]
  have c: "list_all (\<lambda>m. index m \<noteq> 0) (matchAll demo_unclosed)"
    unfolding list_all_iff by blast
  have "\<forall>p. has_at demo_midline p (js ''```mermaid'') \<longrightarrow> \<not> at_line_start demo_midline p"
    by (rule no_fence_by_scan) (simp add: demo_midline_def scan_eval)
  with fence_anchoring [of demo_midline]
  have d: "matchAll demo_midline = []"
    by blast
  from a b c d show ?thesis by blast
qed

section \<open>The order of rendering\<close>

lemma call_result:
  "call ev f st = (r, st') \<Longrightarrow> trace st' = trace st @ [ev] \<and> f (world st) = (r, world st')"
  by (auto simp add: call_def split: prod.splits)

lemma renderDiagram_events:
  assumes "renderDiagram cfg pf code st = (r, st')"
  shows "\<exists>es. trace st' = trace st @ Evaluate code # es \<and> set es \<subseteq> {QuerySvg, Screenshot}"
proof -
  obtain r1 st1 where c1: "call (Evaluate code) (page_evaluate_render pf code) st = (r1, st1)"
    by (cases "call (Evaluate code) (page_evaluate_render pf code) st")
  obtain r2 st2 where c2: "call QuerySvg (page_query_svg pf) st1 = (r2, st2)"
    by (cases "call QuerySvg (page_query_svg pf) st1")
  obtain r3 st3 where c3: "call Screenshot (element_screenshot pf) st2 = (r3, st3)"
    by (cases "call Screenshot (element_screenshot pf) st2")
  from call_result [OF c1] call_result [OF c2] call_result [OF c3]
  have t: "trace st1 = trace st @ [Evaluate code]" "trace st2 = trace st1 @ [QuerySvg]"
    "trace st3 = trace st2 @ [Screenshot]" by simp_all
  from assms c1 c2 c3 have "st' = st1 \<or> st' = st2 \<or> st' = st3"
    by (auto simp add: renderDiagram_def split: sum.splits if_splits)
  with t show ?thesis by auto
qed

lemma render_replacement_events:
  assumes "render_replacement cfg pf base mermaidDir i code st = (r, st')"
  shows "\<exists>es. trace st' = trace st @ Evaluate code # es
           \<and> list_all after_render es \<and> (\<forall>s. Stdout s \<notin> set es) \<and> (\<forall>s. Stderr s \<notin> set es)"
proof -
  obtain r1 st1 where c1: "renderDiagram cfg pf code st = (r1, st1)"
    by (cases "renderDiagram cfg pf code st")
  from renderDiagram_events [OF c1] obtain es1 where
    e1: "trace st1 = trace st @ Evaluate code # es1" "set es1 \<subseteq> {QuerySvg, Screenshot}"
    by blast
  have l1: "list_all after_render es1" "\<forall>s. Stdout s \<notin> set es1" "\<forall>s. Stderr s \<notin> set es1"
    using e1(2) by (auto simp add: list_all_iff)
  show ?thesis
  proof (cases "st' = st1")
    case True
    with e1 l1 show ?thesis by blast
  next
    case False
    with assms c1 obtain path buf r2 where
      c2: "call (WriteBytes path buf) (fs_writeBytes pf path buf) st1 = (r2, st')"
      by (auto simp add: render_replacement_def Let_def
          split: sum.splits prod.splits if_splits option.splits)
    from call_result [OF c2] e1 have "trace st' = trace st @ Evaluate code # (es1 @ [WriteBytes path buf])"
      by simp
    moreover have "list_all after_render (es1 @ [WriteBytes path buf])"
      "\<forall>s. Stdout s \<notin> set (es1 @ [WriteBytes path buf])"
      "\<forall>s. Stderr s \<notin> set (es1 @ [WriteBytes path buf])"
      using l1 by simp_all
    ultimately show ?thesis by blast
  qed
qed

lemma orchestrate_events:
  assumes "orchestrate cfg pf base mermaidDir matches i st = (out, st')"
  shows "\<exists>es. trace st' = trace st @ Stdout (progress i (length matches))
                  # Evaluate (code_of matches i) # es
           \<and> list_all after_render es"
proof -
  let ?st0 = "stdout_write (progress i (length matches)) st"
  obtain r st1 where c: "render_replacement cfg pf base mermaidDir i (code_of matches i) ?st0 = (r, st1)"
    by (cases "render_replacement cfg pf base mermaidDir i (code_of matches i) ?st0")
  from render_replacement_events [OF c] obtain es where
    es: "trace st1 = trace ?st0 @ Evaluate (code_of matches i) # es" "list_all after_render es"
    by blast
  have t0: "trace ?st0 = trace st @ [Stdout (progress i (length matches))]"
    by (simp add: stdout_write_def emit_def)
  from assms c have "(\<exists>s. st' = console_log (js ''done'') st1) \<or> (\<exists>s. st' = console_error s st1)"
    by (auto simp add: orchestrate_def progress_def code_of_def split: sum.splits)
  then obtain ev where ev: "trace st' = trace st1 @ [ev]" "after_render ev"
    by (auto simp add: console_log_def console_error_def emit_def)
  from es t0 ev have "trace st' = trace st @ Stdout (progress i (length matches))
                  # Evaluate (code_of matches i) # (es @ [ev])"
    by simp
  moreover have "list_all after_render (es @ [ev])" using es(2) ev(2) by simp
  ultimately show ?thesis by blast
qed


lemma rendered_codes_simps:
  "rendered_codes [] = []"
  "rendered_codes (xs @ ys) = rendered_codes xs @ rendered_codes ys"
  "rendered_codes (Evaluate code # es) = code # rendered_codes es"
  "rendered_codes (Stdout s # es) = rendered_codes es"
  by (simp_all add: rendered_codes_def)

lemma progress_lines_simps:
  "progress_lines [] = []"
  "progress_lines (xs @ ys) = progress_lines xs @ progress_lines ys"
  "progress_lines (Evaluate code # es) = progress_lines es"
  "progress_lines (Stdout (progress i n) # es) = progress i n # progress_lines es"
  by (simp_all add: progress_lines_def progress_def js_def)

lemma after_render_quiet:
  "list_all after_render es \<Longrightarrow> rendered_codes es = [] \<and> progress_lines es = []"
proof (induction es)
  case Nil
  then show ?case by (simp add: rendered_codes_def progress_lines_def)
next
  case (Cons ev es)
  then show ?case
    by (cases ev) (simp_all add: rendered_codes_def progress_lines_def)
qed

lemma decisions_events:
  "i \<le> length matches \<Longrightarrow>
   \<exists>es. trace (snd (decisions cfg pf base mermaidDir matches i st)) = trace st @ es
      \<and> rendered_codes es = rev (map diagram_code (take i matches))
      \<and> progress_lines es = rev (map (\<lambda>j. progress j (length matches)) [0..<i])"
proof (induction i arbitrary: st)
  case 0
  then show ?case by (simp add: rendered_codes_simps progress_lines_simps)
next
  case (Suc i)
  obtain out st1 where o: "orchestrate cfg pf base mermaidDir matches i st = (out, st1)"
    by (cases "orchestrate cfg pf base mermaidDir matches i st")
  obtain outs st2 where d: "decisions cfg pf base mermaidDir matches i st1 = (outs, st2)"
    by (cases "decisions cfg pf base mermaidDir matches i st1")
  from orchestrate_events [OF o] obtain es1 where
    e1: "trace st1 = trace st @ Stdout (progress i (length matches))
                  # Evaluate (code_of matches i) # es1" "list_all after_render es1"
    by blast
  from Suc.prems have i: "i \<le> length matches" "i < length matches" by simp_all
  from Suc.IH [OF i(1), of st1] d obtain es2 where
    e2: "trace st2 = trace st1 @ es2"
      "rendered_codes es2 = rev (map diagram_code (take i matches))"
      "progress_lines es2 = rev (map (\<lambda>j. progress j (length matches)) [0..<i])"
    by auto
  let ?es = "Stdout (progress i (length matches)) # Evaluate (code_of matches i) # es1 @ es2"
  have "trace (snd (decisions cfg pf base mermaidDir matches (Suc i) st)) = trace st @ ?es"
    using o d e1(1) e2(1) by simp
  moreover have "rendered_codes ?es = rev (map diagram_code (take (Suc i) matches))"
    using after_render_quiet [OF e1(2)] e2(2) i(2)
    by (simp add: rendered_codes_simps take_Suc_conv_app_nth code_of_def diagram_code_def)
  moreover have "progress_lines ?es = rev (map (\<lambda>j. progress j (length matches)) [0..<Suc i])"
    using after_render_quiet [OF e1(2)] e2(3)
    by (simp add: progress_lines_simps)
  ultimately show ?case by blast
qed

lemma loop_ext:
  "ext (processLoop cfg pf base mermaidDir matches i ls) =
     snd (decisions cfg pf base mermaidDir matches i (ext ls))
   \<and> failures (processLoop cfg pf base mermaidDir matches i ls) =
       failures ls + length (filter is_Failed (fst (decisions cfg pf base mermaidDir matches i (ext ls))))"
proof (induction i arbitrary: ls)
  case 0
  then show ?case by simp
next
  case (Suc i)
  obtain out st1 where o: "orchestrate cfg pf base mermaidDir matches i (ext ls) = (out, st1)"
    by (cases "orchestrate cfg pf base mermaidDir matches i (ext ls)")
  obtain outs st2 where d: "decisions cfg pf base mermaidDir matches i st1 = (outs, st2)"
    by (cases "decisions cfg pf base mermaidDir matches i st1")
  let ?ls1 = "iteration cfg pf base mermaidDir matches i ls"
  have it: "ext ?ls1 = st1" "failures ?ls1 = (if is_Failed out then failures ls + 1 else failures ls)"
    using o by (simp_all add: iteration_orchestrate)
  from Suc [of ?ls1] it d o show ?case by simp
qed

section \<open>The converted file\<close>

lemma demo_two_matches:
  "matchAll demo_two =
     [\<lparr> index = 0,
        full = [96, 96, 96, 109, 101, 114, 109, 97, 105, 100, 10, 65, 10, 96, 96, 96],
        group1 = [65, 10] \<rparr>,
      \<lparr> index = 17,
        full = [96, 96, 96, 109, 101, 114, 109, 97, 105, 100, 10, 66, 10, 96, 96, 96],
        group1 = [66, 10] \<rparr>]"
  by (simp add: regex_eval demo_two_def)

lemmas file_eval =
  processFile_def convert_file_def prepare_def finish_file_def iteration_def suffix_of_def
  demo_files_def demo_basename_def demo_extname_def demo_basename_ext_def endsWith_def

lemma demo_paths:
  "path_dirname demo_platform (js ''/d/architecture.md'') = js ''/d''"
  "path_extname demo_platform (js ''/d/architecture.md'') = js ''.md''"
  "path_basename demo_platform (js ''/d/architecture.md'') = js ''architecture.md''"
  "path_basename_ext demo_platform (js ''/d/architecture.md'') (js ''.md'') = js ''architecture''"
  "path_join demo_platform a b = a @ js ''/'' @ b"
  by (simp_all add: demo_platform_def demo_basename_def demo_extname_def demo_basename_ext_def
      endsWith_def js_def Let_def)

lemma demo_calls:
  "fs_readFile demo_platform p w = (demo_files p, w)"
  "fs_writeText demo_platform p t w = (Inr (), w)"
  "fs_writeBytes demo_platform p b w = (Inr (), w)"
  "fs_mkdir demo_platform p w = (Inr (), w)"
  "page_evaluate_render demo_platform code w = demo_render code w"
  "page_query_svg demo_platform w = (Inr True, w)"
  "element_screenshot demo_platform w = (Inr [0xFF, 0xD8, 0xFF, 0xD9], w)"
  "buffer_base64 demo_platform = demo_base64"
  by (simp_all add: demo_platform_def)

lemma demo_files_simps:
  "demo_files (js ''/d/x.md'') = Inr demo_doc"
  "demo_files (js ''/d/architecture.md'') = Inr demo_two"
  "demo_files (js ''/d/plain.md'') = Inr demo_plain"
  by (simp_all add: demo_files_def js_def)

lemma show_nat_small:
  "show_nat 0 = js ''0''" "show_nat 1 = js ''1''" "show_nat 2 = js ''2''"
  "show_nat (Suc 0) = js ''1''" "show_nat (Suc (Suc 0)) = js ''2''"
  by (simp_all add: show_nat.simps digit_cu_def js_def)

lemma demo_config_simps:
  "fmt (demo_config f m) = f" "mode (demo_config f m) = m" "scale (demo_config f m) = 2"
  "mdPath (demo_config f m) = js ''/d/x.md''"
  by (simp_all add: demo_config_def)

lemma trim_demo:
  "trim [65, 10] = js ''A''" "trim [66, 10] = js ''B''" "trim [10] = []"
  by (simp_all add: trim_def is_white_space_def is_line_terminator_def js_def)

lemma demo_two_svg_decisions:
  "decisions (demo_config Svg B64) demo_platform (js ''architecture'') (js ''/d/mermaid'')
     (matchAll demo_two) 2 \<lparr> world = 0, trace = tr \<rparr> =
   ([Rendered ([LF] @ js ''<svg>A</svg>'' @ [LF]), Rendered ([LF] @ js ''<svg>B</svg>'' @ [LF])],
    \<lparr> world = 2,
      trace = tr @
          [Stdout (js ''  [2/2] ''),
           Evaluate (js ''B''),
           Stdout (js ''done'' @ [LF]),
           Stdout (js ''  [1/2] ''),
           Evaluate (js ''A''),
           Stdout (js ''done'' @ [LF])] \<rparr>)"
  apply (simp add: numeral_2_eq_2 demo_two_matches orchestrate_def render_replacement_def
      renderDiagram_def call_def demo_calls demo_config_simps trim_demo show_nat_small
      stdout_write_def console_log_def emit_def demo_render_def)
  apply (simp add: js_def)
  done



lemma processLoop_document:
  "processLoop cfg pf base mermaidDir (matchAll content) (length (matchAll content))
      \<lparr> result = content, failures = 0, ext = st \<rparr> =
   \<lparr> result = compose content (zip (map span_of (matchAll content))
                 (fst (decisions cfg pf base mermaidDir (matchAll content)
                         (length (matchAll content)) st))),
     failures = length (filter is_Failed
                  (fst (decisions cfg pf base mermaidDir (matchAll content)
                          (length (matchAll content)) st))),
     ext = snd (decisions cfg pf base mermaidDir (matchAll content)
                  (length (matchAll content)) st) \<rparr>"
  using loop_compose [of "length (matchAll content)" "matchAll content" "length content" content
      cfg pf base mermaidDir "[]" 0 st] matchAll_spans_ok [of content]
  by (simp add: compose_def)

lemma processFile_read_error:
  assumes "fs_readFile pf filePath (world st) = (Inl err, w)"
  shows "processFile cfg pf filePath st = (Inl err, after_read filePath w st)"
  using assms by (simp add: processFile_def call_def after_read_def)

lemma processFile_no_match:
  assumes "fs_readFile pf filePath (world st) = (Inr content, w)" "matchAll content = []"
  shows "processFile cfg pf filePath st = (Inr False, after_read filePath w st)"
  using assms by (simp add: processFile_def call_def after_read_def)

lemma processFile_prepare_error:
  assumes "fs_readFile pf filePath (world st) = (Inr content, w)" "matchAll content \<noteq> []"
    "prepare cfg pf filePath (length (matchAll content)) (after_read filePath w st) = (Inl err, st2)"
  shows "processFile cfg pf filePath st = (Inl err, st2)"
  using assms by (simp add: processFile_def call_def after_read_def convert_file_def Let_def)

lemma processFile_converted:
  assumes "fs_readFile pf filePath (world st) = (Inr content, w)" "matchAll content \<noteq> []"
    "prepare cfg pf filePath (length (matchAll content)) (after_read filePath w st) = (Inr u, st2)"
  shows "processFile cfg pf filePath st =
     finish_file cfg pf (path_dirname pf filePath) (base_of pf filePath) (path_extname pf filePath)
       \<lparr> result = document_text cfg pf filePath content (after_read filePath w st),
         failures = length (filter is_Failed
                      (fst (document_decisions cfg pf filePath content (after_read filePath w st)))),
         ext = snd (document_decisions cfg pf filePath content (after_read filePath w st)) \<rparr>"
  using assms
  by (simp add: processFile_def call_def after_read_def [symmetric] convert_file_def Let_def
      processLoop_document document_text_def document_decisions_def base_of_def mermaidDir_of_def)

lemma finish_file_written:
  assumes "finish_file cfg pf dir base ext' ls = (r, st')"
  shows "\<exists>es. trace st' = trace (ext ls)
                   @ WriteText (path_join pf dir (base @ suffix_of (fmt cfg) @ ext')) (result ls) # es
           \<and> list_all is_console es
           \<and> (r = Inr True \<and> (failures ls > 0 \<longrightarrow> Stderr (warning (failures ls)) \<in> set es)
               \<or> (\<exists>err. r = Inl err \<and> es = []))"
proof -
  let ?out = "path_join pf dir (base @ suffix_of (fmt cfg) @ ext')"
  obtain r1 st1 where c: "call (WriteText ?out (result ls)) (fs_writeText pf ?out (result ls)) (ext ls)
      = (r1, st1)"
    by (cases "call (WriteText ?out (result ls)) (fs_writeText pf ?out (result ls)) (ext ls)")
  from call_result [OF c] have t1: "trace st1 = trace (ext ls) @ [WriteText ?out (result ls)]"
    by simp
  show ?thesis
  proof (cases r1)
    case (Inl err)
    with assms c have "r = Inl err" "st' = st1" by (simp_all add: finish_file_def Let_def)
    with t1 show ?thesis by simp
  next
    case (Inr u)
    let ?log = "Stdout (js ''  -> '' @ ?out @ [LF])"
    define es where "es = (if failures ls > 0 then [Stderr (warning (failures ls))] else []) @ [?log]"
    from Inr assms c have r: "r = Inr True" and "trace st' = trace st1 @ es"
      by (auto simp add: finish_file_def Let_def console_warn_def console_log_def emit_def
          warning_def es_def)
    with t1 have "trace st' = trace (ext ls) @ WriteText ?out (result ls) # es" by simp
    moreover have "list_all is_console es" by (simp add: es_def)
    moreover have "failures ls > 0 \<longrightarrow> Stderr (warning (failures ls)) \<in> set es"
      by (simp add: es_def)
    ultimately show ?thesis using r by - (rule exI [of _ es], simp)
  qed
qed




lemma after_render_loop_event: "list_all after_render es \<Longrightarrow> list_all loop_event es"
proof (induction es)
  case Nil
  then show ?case by simp
next
  case (Cons ev es)
  then show ?case by (cases ev) simp_all
qed

lemma decisions_loop_events:
  "\<exists>es. trace (snd (decisions cfg pf base mermaidDir matches i st)) = trace st @ es
      \<and> list_all loop_event es"
proof (induction i arbitrary: st)
  case 0
  then show ?case by simp
next
  case (Suc i)
  obtain out st1 where o: "orchestrate cfg pf base mermaidDir matches i st = (out, st1)"
    by (cases "orchestrate cfg pf base mermaidDir matches i st")
  obtain outs st2 where d: "decisions cfg pf base mermaidDir matches i st1 = (outs, st2)"
    by (cases "decisions cfg pf base mermaidDir matches i st1")
  from orchestrate_events [OF o] obtain es1 where
    e1: "trace st1 = trace st @ Stdout (progress i (length matches))
                  # Evaluate (code_of matches i) # es1" "list_all after_render es1"
    by blast
  from Suc [of st1] d obtain es2 where e2: "trace st2 = trace st1 @ es2" "list_all loop_event es2"
    by auto
  let ?es = "Stdout (progress i (length matches)) # Evaluate (code_of matches i) # es1 @ es2"
  have "trace (snd (decisions cfg pf base mermaidDir matches (Suc i) st)) = trace st @ ?es"
    using o d e1(1) e2(1) by simp
  moreover have "list_all loop_event ?es"
    using after_render_loop_event [OF e1(2)] e2(2) by simp
  ultimately show ?case by blast
qed




lemma document_decisions_length:
  "length (fst (document_decisions cfg pf filePath content st)) = length (matchAll content)"
  by (simp add: document_decisions_def length_decisions)



lemma demo_two_spans: "map span_of (matchAll demo_two) = [(0, 16), (17, 33)]"
  by (simp add: demo_two_matches span_of_def)

lemma demo_arch_dirs:
  "base_of demo_platform (js ''/d/architecture.md'') = js ''architecture''"
  "mermaidDir_of demo_platform (js ''/d/architecture.md'') = js ''/d/mermaid''"
  by (simp_all add: base_of_def mermaidDir_of_def demo_paths) (simp add: js_def)

lemma demo_arch_read:
  "fs_readFile demo_platform (js ''/d/architecture.md'') (world demo_start) = (Inr demo_two, 0)"
  by (simp add: demo_calls demo_files_simps demo_start_def)

lemma demo_arch_prepare_svg:
  "prepare (demo_config Svg B64) demo_platform (js ''/d/architecture.md'') 2
        (after_read (js ''/d/architecture.md'') 0 demo_start) =
     (Inr (), \<lparr> world = 0, trace = [ReadFile (js ''/d/architecture.md''),
           Stdout ([LF] @ js ''architecture.md: 2 diagram(s)'' @ [LF])] \<rparr>)"
  by (simp add: prepare_def demo_config_simps demo_paths show_nat_small console_log_def emit_def
        after_read_def demo_start_def)
     (simp add: js_def)

lemma demo_arch_svg_decisions:
  "document_decisions (demo_config Svg B64) demo_platform (js ''/d/architecture.md'') demo_two
     (after_read (js ''/d/architecture.md'') 0 demo_start) =
   ([Rendered ([LF] @ js ''<svg>A</svg>'' @ [LF]), Rendered ([LF] @ js ''<svg>B</svg>'' @ [LF])],
    \<lparr> world = 2,
      trace =
          [ReadFile (js ''/d/architecture.md''),
           Stdout ([LF] @ js ''architecture.md: 2 diagram(s)'' @ [LF]),
           Stdout (js ''  [2/2] ''),
           Evaluate (js ''B''),
           Stdout (js ''done'' @ [LF]),
           Stdout (js ''  [1/2] ''),
           Evaluate (js ''A''),
           Stdout (js ''done'' @ [LF])] \<rparr>)"
proof -
  have len: "length (matchAll demo_two) = 2" by (simp add: demo_two_matches)
  show ?thesis
    unfolding document_decisions_def len demo_arch_dirs demo_arch_prepare_svg snd_conv
    by (simp add: demo_two_svg_decisions)
qed

lemma demo_arch_svg_text:
  "document_text (demo_config Svg B64) demo_platform (js ''/d/architecture.md'') demo_two
     (after_read (js ''/d/architecture.md'') 0 demo_start) =
   js ''\<newline><svg>A</svg>\<newline>\<newline>\<newline><svg>B</svg>\<newline>''"
  unfolding document_text_def demo_arch_svg_decisions demo_two_spans fst_conv
  by (simp add: compose_def slice_def demo_two_def js_def LF_def)

lemma demo_arch_svg:
  "processFile (demo_config Svg B64) demo_platform (js ''/d/architecture.md'') demo_start =
     (Inr True,
      \<lparr> world = 2,
        trace =
          [ReadFile (js ''/d/architecture.md''),
           Stdout ([LF] @ js ''architecture.md: 2 diagram(s)'' @ [LF]),
           Stdout (js ''  [2/2] ''),
           Evaluate (js ''B''),
           Stdout (js ''done'' @ [LF]),
           Stdout (js ''  [1/2] ''),
           Evaluate (js ''A''),
           Stdout (js ''done'' @ [LF]),
           WriteText (js ''/d/architecture_mermaid2svg.md'')
             (js ''\<newline><svg>A</svg>\<newline>\<newline>\<newline><svg>B</svg>\<newline>''),
           Stdout (js ''  -> /d/architecture_mermaid2svg.md'' @ [LF])] \<rparr>)"
proof -
  have len: "length (matchAll demo_two) = 2" and ne: "matchAll demo_two \<noteq> []"
    by (simp_all add: demo_two_matches)
  show ?thesis
    unfolding processFile_converted [OF demo_arch_read ne demo_arch_prepare_svg [folded len]]
      demo_arch_svg_decisions demo_arch_svg_text fst_conv snd_conv
    by (simp add: finish_file_def suffix_of_def demo_config_simps demo_paths demo_arch_dirs
          call_def demo_calls console_log_def emit_def)
       (simp add: js_def)
qed

text \<open>
  C3, as the code has it. For every list of matches and whatever the renderer answers, the
  loop of \<open>processFile\<close> invokes the renderer once per match and writes one progress
  message per match, both in reverse document order: the match with the largest start
  comes first, the one with the smallest start last.
\<close>

theorem render_order:
  "\<exists>es. trace (ext (processLoop cfg pf base mermaidDir matches (length matches) ls))
           = trace (ext ls) @ es
      \<and> rendered_codes es = rev (map diagram_code matches)
      \<and> progress_lines es = rev (map (\<lambda>j. progress j (length matches)) [0..<length matches])"
  using decisions_events [of "length matches" matches cfg pf base mermaidDir "ext ls"]
  by (simp add: loop_ext)


theorem render_order_witness:
  "rendered_codes (new_events demo_start
      (ext (processLoop (demo_config Svg B64) demo_platform (js ''architecture'') (js ''/d/mermaid'')
              (matchAll demo_two) (length (matchAll demo_two))
              \<lparr> result = demo_two, failures = 0, ext = demo_start \<rparr>)))
   = [js ''B'', js ''A'']"
proof -
  from render_order [of "demo_config Svg B64" demo_platform "js ''architecture''" "js ''/d/mermaid''"
      "matchAll demo_two" "\<lparr> result = demo_two, failures = 0, ext = demo_start \<rparr>"]
  obtain es where es: "trace (ext (processLoop (demo_config Svg B64) demo_platform
        (js ''architecture'') (js ''/d/mermaid'') (matchAll demo_two) (length (matchAll demo_two))
        \<lparr> result = demo_two, failures = 0, ext = demo_start \<rparr>)) = trace demo_start @ es"
      "rendered_codes es = rev (map diagram_code (matchAll demo_two))"
    by auto
  have "rev (map diagram_code (matchAll demo_two)) = [js ''B'', js ''A'']"
    by (simp add: demo_two_matches diagram_code_def trim_demo)
  with es show ?thesis by (simp add: new_events_def)
qed

text \<open>
  C3 as stated fails: in a document with the diagrams A (at index 0) and B (at index 17)
  the renderer is invoked for B first.
\<close>

theorem forward_render_order_counterexample:
  "map index (matchAll demo_two) = [0, 17]
   \<and> map diagram_code (matchAll demo_two) = [js ''A'', js ''B'']
   \<and> rendered_codes (new_events demo_start
        (snd (processFile (demo_config Svg B64) demo_platform (js ''/d/architecture.md'') demo_start)))
      = [js ''B'', js ''A'']"
  unfolding demo_arch_svg
  by (simp add: demo_two_matches diagram_code_def trim_demo new_events_def
      demo_start_def rendered_codes_def)





section \<open>The replacement of one diagram\<close>

lemma orchestrate_rendered:
  assumes "orchestrate cfg pf base mermaidDir matches k st = (Rendered t, st')"
  shows "\<exists>svg w1. page_evaluate_render pf (diagram_code (matches ! k)) (world st) = (Inr svg, w1)
     \<and> (fmt cfg = Svg \<longrightarrow> t = [LF] @ svg @ [LF])
     \<and> (fmt cfg = Jpg \<longrightarrow>
          (\<exists>w2 buf w3. page_query_svg pf w1 = (Inr True, w2)
             \<and> element_screenshot pf w2 = (Inr buf, w3)
             \<and> (mode cfg = B64 \<longrightarrow> t = inline_reference (k + 1) (buffer_base64 pf buf))
             \<and> (mode cfg = Files \<longrightarrow>
                   t = file_reference base (k + 1)
                   \<and> (\<exists>w4. fs_writeBytes pf (path_join pf mermaidDir (image_name base (k + 1))) buf w3
                              = (Inr (), w4))
                   \<and> WriteBytes (path_join pf mermaidDir (image_name base (k + 1))) buf
                        \<in> set (new_events st st'))))"
  using assms
  apply (cases "fmt cfg"; cases "mode cfg")
  apply (auto simp add: orchestrate_def render_replacement_def renderDiagram_def call_def
      stdout_write_def console_log_def console_error_def emit_def Let_def new_events_def
      diagram_code_def inline_reference_def file_reference_def image_name_def
      split: prod.splits sum.splits option.splits if_splits)
  done


lemma new_events_eq: "trace st' = trace st @ es \<Longrightarrow> new_events st st' = es"
  by (simp add: new_events_def)

lemma orchestrate_trace:
  assumes "orchestrate cfg pf base mermaidDir matches i st = (out, st')"
  shows "trace st' = trace st @ new_events st st'"
  using orchestrate_events [OF assms] by (auto simp add: new_events_def)

lemma decisions_nth:
  "k < i \<Longrightarrow>
   \<exists>st_k st_k' es1 es2.
      orchestrate cfg pf base mermaidDir matches k st_k
        = (fst (decisions cfg pf base mermaidDir matches i st) ! k, st_k')
      \<and> trace st_k = trace st @ es1
      \<and> trace (snd (decisions cfg pf base mermaidDir matches i st)) = trace st_k' @ es2"
proof (induction i arbitrary: st)
  case 0
  then show ?case by simp
next
  case (Suc i)
  obtain out st1 where o: "orchestrate cfg pf base mermaidDir matches i st = (out, st1)"
    by (cases "orchestrate cfg pf base mermaidDir matches i st")
  obtain outs st2 where d: "decisions cfg pf base mermaidDir matches i st1 = (outs, st2)"
    by (cases "decisions cfg pf base mermaidDir matches i st1")
  have len: "length outs = i"
    using length_decisions [of cfg pf base mermaidDir matches i st1] d by simp
  have dS: "decisions cfg pf base mermaidDir matches (Suc i) st = (outs @ [out], st2)"
    using o d by simp
  from decisions_loop_events [of cfg pf base mermaidDir matches i st1] d
  obtain el where el: "trace st2 = trace st1 @ el" by auto
  show ?case
  proof (cases "k = i")
    case True
    have "orchestrate cfg pf base mermaidDir matches k st
        = (fst (decisions cfg pf base mermaidDir matches (Suc i) st) ! k, st1)"
      unfolding dS using o True len by (simp add: nth_append)
    moreover have "trace st = trace st @ []" by simp
    moreover have "trace (snd (decisions cfg pf base mermaidDir matches (Suc i) st)) = trace st1 @ el"
      unfolding dS using el by simp
    ultimately show ?thesis by blast
  next
    case False
    with Suc.prems have ki: "k < i" by simp
    from Suc.IH [OF ki, of st1] d obtain st_k st_k' es1 es2 where
      ih: "orchestrate cfg pf base mermaidDir matches k st_k = (outs ! k, st_k')"
        "trace st_k = trace st1 @ es1" "trace st2 = trace st_k' @ es2"
      by auto
    have "orchestrate cfg pf base mermaidDir matches k st_k
        = (fst (decisions cfg pf base mermaidDir matches (Suc i) st) ! k, st_k')"
      unfolding dS using ih(1) ki len by (simp add: nth_append)
    moreover have "trace st_k = trace st @ (new_events st st1 @ es1)"
      using ih(2) orchestrate_trace [OF o] by simp
    moreover have "trace (snd (decisions cfg pf base mermaidDir matches (Suc i) st)) = trace st_k' @ es2"
      unfolding dS using ih(3) by simp
    ultimately show ?thesis by blast
  qed
qed

lemma decisions_rendered:
  assumes "k < i" "fst (decisions cfg pf base mermaidDir matches i st) ! k = Rendered t"
  shows "\<exists>svg w0 w1. page_evaluate_render pf (diagram_code (matches ! k)) w0 = (Inr svg, w1)
     \<and> (fmt cfg = Svg \<longrightarrow> t = [LF] @ svg @ [LF])
     \<and> (fmt cfg = Jpg \<longrightarrow>
          (\<exists>w2 buf w3. page_query_svg pf w1 = (Inr True, w2)
             \<and> element_screenshot pf w2 = (Inr buf, w3)
             \<and> (mode cfg = B64 \<longrightarrow> t = inline_reference (k + 1) (buffer_base64 pf buf))
             \<and> (mode cfg = Files \<longrightarrow>
                   t = file_reference base (k + 1)
                   \<and> (\<exists>w4. fs_writeBytes pf (path_join pf mermaidDir (image_name base (k + 1))) buf w3
                              = (Inr (), w4))
                   \<and> WriteBytes (path_join pf mermaidDir (image_name base (k + 1))) buf
                        \<in> set (new_events st (snd (decisions cfg pf base mermaidDir matches i st))))))"
proof -
  from decisions_nth [OF assms(1), of cfg pf base mermaidDir matches st] assms(2)
  obtain st_k st_k' es1 es2 where
    o: "orchestrate cfg pf base mermaidDir matches k st_k = (Rendered t, st_k')"
    and t: "trace st_k = trace st @ es1"
      "trace (snd (decisions cfg pf base mermaidDir matches i st)) = trace st_k' @ es2"
    by auto
  define X where "X = new_events st_k st_k'"
  have "trace st_k' = trace st_k @ X"
    unfolding X_def by (rule orchestrate_trace [OF o])
  with t have "trace (snd (decisions cfg pf base mermaidDir matches i st))
      = trace st @ (es1 @ X @ es2)"
    by simp
  then have "new_events st (snd (decisions cfg pf base mermaidDir matches i st)) = es1 @ X @ es2"
    by (rule new_events_eq)
  then have sub: "set (new_events st_k st_k')
       \<subseteq> set (new_events st (snd (decisions cfg pf base mermaidDir matches i st)))"
    unfolding X_def [symmetric] by auto
  from orchestrate_rendered [OF o] obtain svg w1 where
    r: "page_evaluate_render pf (diagram_code (matches ! k)) (world st_k) = (Inr svg, w1)"
    and sv: "fmt cfg = Svg \<longrightarrow> t = [LF] @ svg @ [LF]"
    and jp: "fmt cfg = Jpg \<longrightarrow>
          (\<exists>w2 buf w3. page_query_svg pf w1 = (Inr True, w2)
             \<and> element_screenshot pf w2 = (Inr buf, w3)
             \<and> (mode cfg = B64 \<longrightarrow> t = inline_reference (k + 1) (buffer_base64 pf buf))
             \<and> (mode cfg = Files \<longrightarrow>
                   t = file_reference base (k + 1)
                   \<and> (\<exists>w4. fs_writeBytes pf (path_join pf mermaidDir (image_name base (k + 1))) buf w3
                              = (Inr (), w4))
                   \<and> WriteBytes (path_join pf mermaidDir (image_name base (k + 1))) buf
                        \<in> set (new_events st_k st_k')))"
    by blast
  have jp': "fmt cfg = Jpg \<longrightarrow>
          (\<exists>w2 buf w3. page_query_svg pf w1 = (Inr True, w2)
             \<and> element_screenshot pf w2 = (Inr buf, w3)
             \<and> (mode cfg = B64 \<longrightarrow> t = inline_reference (k + 1) (buffer_base64 pf buf))
             \<and> (mode cfg = Files \<longrightarrow>
                   t = file_reference base (k + 1)
                   \<and> (\<exists>w4. fs_writeBytes pf (path_join pf mermaidDir (image_name base (k + 1))) buf w3
                              = (Inr (), w4))
                   \<and> WriteBytes (path_join pf mermaidDir (image_name base (k + 1))) buf
                        \<in> set (new_events st (snd (decisions cfg pf base mermaidDir matches i st)))))"
  proof
    assume "fmt cfg = Jpg"
    with jp obtain w2 buf w3 where
      a: "page_query_svg pf w1 = (Inr True, w2)" "element_screenshot pf w2 = (Inr buf, w3)"
        "mode cfg = B64 \<longrightarrow> t = inline_reference (k + 1) (buffer_base64 pf buf)"
      and f: "mode cfg = Files \<longrightarrow>
                   t = file_reference base (k + 1)
                   \<and> (\<exists>w4. fs_writeBytes pf (path_join pf mermaidDir (image_name base (k + 1))) buf w3
                              = (Inr (), w4))
                   \<and> WriteBytes (path_join pf mermaidDir (image_name base (k + 1))) buf
                        \<in> set (new_events st_k st_k')"
      by blast
    from f sub have "mode cfg = Files \<longrightarrow>
                   t = file_reference base (k + 1)
                   \<and> (\<exists>w4. fs_writeBytes pf (path_join pf mermaidDir (image_name base (k + 1))) buf w3
                              = (Inr (), w4))
                   \<and> WriteBytes (path_join pf mermaidDir (image_name base (k + 1))) buf
                        \<in> set (new_events st (snd (decisions cfg pf base mermaidDir matches i st)))"
      by (simp add: subset_iff)
    with a show "\<exists>w2 buf w3. page_query_svg pf w1 = (Inr True, w2)
             \<and> element_screenshot pf w2 = (Inr buf, w3)
             \<and> (mode cfg = B64 \<longrightarrow> t = inline_reference (k + 1) (buffer_base64 pf buf))
             \<and> (mode cfg = Files \<longrightarrow>
                   t = file_reference base (k + 1)
                   \<and> (\<exists>w4. fs_writeBytes pf (path_join pf mermaidDir (image_name base (k + 1))) buf w3
                              = (Inr (), w4))
                   \<and> WriteBytes (path_join pf mermaidDir (image_name base (k + 1))) buf
                        \<in> set (new_events st (snd (decisions cfg pf base mermaidDir matches i st))))"
      by (intro exI [of _ w2] exI [of _ buf] exI [of _ w3] conjI) assumption+
  qed
  from r sv jp' show ?thesis
    by (intro exI [of _ svg] exI [of _ "world st_k"] exI [of _ w1] conjI) assumption+
qed


lemma compose_upto_split:
  "k < length ds \<Longrightarrow>
     compose_upto doc c ds b =
       compose_upto doc c (take k ds) (fst (fst (ds ! k)))
         @ replaced doc (fst (ds ! k)) (snd (ds ! k))
         @ compose_upto doc (snd (fst (ds ! k))) (drop (Suc k) ds) b"
proof (induction ds arbitrary: k c)
  case Nil
  then show ?case by simp
next
  case (Cons d ds)
  obtain sp out where d: "d = (sp, out)" by (cases d)
  show ?case
  proof (cases k)
    case 0
    with d show ?thesis by simp
  next
    case (Suc j)
    with Cons.prems have "j < length ds" by simp
    from Cons.IH [OF this, of "snd sp"] Suc d show ?thesis by simp
  qed
qed

lemma spans_ok_nth:
  "spans_ok c spans b \<Longrightarrow> k < length spans \<Longrightarrow>
     c \<le> fst (spans ! k) \<and> fst (spans ! k) \<le> snd (spans ! k) \<and> snd (spans ! k) \<le> b"
proof (induction c spans b arbitrary: k rule: spans_ok.induct)
  case (1 c b)
  then show ?case by simp
next
  case (2 c s e spans b)
  from "2.prems" have ok: "c \<le> s" "s \<le> e" "spans_ok e spans b" by simp_all
  from spans_ok_le [OF ok(3)] have eb: "e \<le> b" .
  show ?case
  proof (cases k)
    case 0
    with ok eb show ?thesis by simp
  next
    case (Suc j)
    with "2.prems" have "j < length spans" by simp
    from "2.IH" [OF ok(3) this] ok Suc show ?thesis by simp
  qed
qed

lemma compose_around:
  assumes k: "k < length ds"
    and ok: "spans_ok 0 (map fst ds) (length doc)"
    and sep: "\<forall>j. Suc j < length ds \<longrightarrow> snd (fst (ds ! j)) < fst (fst (ds ! Suc j))"
    and ls: "at_line_start doc (fst (fst (ds ! k)))"
    and le: "at_line_end doc (snd (fst (ds ! k)))"
  shows "\<exists>pre post. compose_upto doc 0 ds (length doc)
            = pre @ replaced doc (fst (ds ! k)) (snd (ds ! k)) @ post
          \<and> (pre = [] \<or> is_line_terminator (last pre))
          \<and> (post = [] \<or> is_line_terminator (hd post))"
proof -
  let ?s = "fst (fst (ds ! k))" and ?e = "snd (fst (ds ! k))"
  let ?pre = "compose_upto doc 0 (take k ds) ?s"
  let ?post = "compose_upto doc ?e (drop (Suc k) ds) (length doc)"
  have bounds: "j < length ds \<Longrightarrow>
      fst (fst (ds ! j)) \<le> snd (fst (ds ! j)) \<and> snd (fst (ds ! j)) \<le> length doc" for j
    using spans_ok_nth [OF ok, of j] by simp
  have sk: "?s \<le> ?e" "?e \<le> length doc" using bounds [OF k] by simp_all
  have pre: "?pre = [] \<or> is_line_terminator (last ?pre)"
  proof (cases "?s = 0")
    case True
    have "k = 0"
    proof (rule ccontr)
      assume "k \<noteq> 0"
      then obtain j where j: "k = Suc j" by (cases k) auto
      with sep k have "snd (fst (ds ! j)) < ?s" by simp
      with True show False by simp
    qed
    with True show ?thesis by (simp add: slice_def)
  next
    case False
    with ls have lt: "is_line_terminator (doc ! (?s - 1))" by (simp add: at_line_start_def)
    have "\<exists>x a. ?pre = x @ slice doc a ?s \<and> a < ?s"
    proof (cases k)
      case 0
      then have "?pre = [] @ slice doc 0 ?s" by simp
      with False show ?thesis by blast
    next
      case (Suc j)
      with k have j: "j < length ds" by simp
      have "take k ds = take j ds @ [ds ! j]"
        using Suc j by (simp add: take_Suc_conv_app_nth)
      then have "?pre = (compose_upto doc 0 (take j ds) (fst (fst (ds ! j)))
            @ replaced doc (fst (ds ! j)) (snd (ds ! j))) @ slice doc (snd (fst (ds ! j))) ?s"
        using compose_upto_snoc [of doc 0 "take j ds" "fst (ds ! j)" "snd (ds ! j)" ?s] by simp
      moreover have "snd (fst (ds ! j)) < ?s" using sep k Suc by simp
      ultimately show ?thesis by blast
    qed
    then obtain x a where x: "?pre = x @ slice doc a ?s" "a < ?s" by blast
    have len: "length (slice doc a ?s) = ?s - a" using sk by (simp add: length_slice)
    with x(2) have ne: "slice doc a ?s \<noteq> []" by auto
    have "last (slice doc a ?s) = slice doc a ?s ! (?s - 1 - a)"
      using ne len by (simp add: last_conv_nth)
    also have "\<dots> = doc ! (?s - 1)"
      using nth_slice [of ?s doc a "?s - 1"] sk x(2) by simp
    finally have "last ?pre = doc ! (?s - 1)" using x(1) ne by simp
    with lt show ?thesis by simp
  qed
  have post: "?post = [] \<or> is_line_terminator (hd ?post)"
  proof (cases "?e = length doc")
    case True
    have "drop (Suc k) ds = []"
    proof (rule ccontr)
      assume "drop (Suc k) ds \<noteq> []"
      then have n: "Suc k < length ds" by simp
      with sep have "?e < fst (fst (ds ! Suc k))" by simp
      with bounds [OF n] True show False by simp
    qed
    with True show ?thesis by (simp add: slice_def)
  next
    case False
    with le have lt: "is_line_terminator (doc ! ?e)" by (simp add: at_line_end_def)
    have "\<exists>b y. ?post = slice doc ?e b @ y \<and> ?e < b \<and> b \<le> length doc"
    proof (cases "drop (Suc k) ds")
      case Nil
      then have "?post = slice doc ?e (length doc) @ []" by simp
      with False sk show ?thesis by (intro exI [of _ "length doc"] exI [of _ "[]"]) simp
    next
      case (Cons d' rest)
      then have n: "Suc k < length ds" by (cases "Suc k < length ds") simp_all
      from hd_drop_conv_nth [OF n] Cons have d': "d' = ds ! Suc k" by simp
      obtain sp out where spd: "d' = (sp, out)" by (cases d')
      from Cons spd have "?post = slice doc ?e (fst sp)
          @ (replaced doc sp out @ compose_upto doc (snd sp) rest (length doc))"
        by simp
      moreover have nth': "ds ! Suc k = (sp, out)" using d' spd by (simp only:)
      have fsp: "fst (fst (ds ! Suc k)) = fst sp" by (simp only: nth' fst_conv)
      have "?e < fst sp" using sep n unfolding fsp [symmetric] by blast
      moreover have "fst sp \<le> length doc" using bounds [OF n] unfolding fsp [symmetric] by simp
      ultimately show ?thesis by blast
    qed
    then obtain b y where y: "?post = slice doc ?e b @ y" "?e < b" "b \<le> length doc" by blast
    have len: "length (slice doc ?e b) = b - ?e" using y(3) by (simp add: length_slice)
    with y(2) have ne: "slice doc ?e b \<noteq> []" by auto
    have "hd (slice doc ?e b) = slice doc ?e b ! (?e - ?e)"
      using ne by (simp add: hd_conv_nth)
    also have "\<dots> = doc ! ?e"
      using nth_slice [of b doc ?e ?e] y(2,3) by simp
    finally have "hd ?post = doc ! ?e" using y(1) ne by simp
    with lt show ?thesis by simp
  qed
  from compose_upto_split [OF k, of doc 0 "length doc"] pre post show ?thesis by blast
qed


lemma matchAll_lines:
  assumes "m \<in> set (matchAll doc)"
  shows "at_line_start doc (fst (span_of m)) \<and> at_line_end doc (snd (span_of m))
     \<and> has_at doc (fst (span_of m)) (js ''```mermaid'')"
proof -
  from assms obtain s z where sz: "s \<le> length doc" "match_at MERMAID_RE doc s = Some z"
      "m = mk_match doc s z"
    by (rule matchAll_elem)
  from match_at_bounds [OF sz(2)] sz(1) have z: "s \<le> fst z" "fst z \<le> length doc"
    by simp_all
  have sp: "span_of m = (s, fst z)" using sz(3) z by (simp add: span_of_mk_match)
  from mermaid_sem [OF match_at_sem [OF sz(2)] sz(1)]
  have "at_line_start doc s" "has_at doc s (js ''```mermaid'')" "at_line_end doc (fst z)"
    by blast+
  with sp show ?thesis by simp
qed

lemma matchAll_separated:
  assumes "Suc j < length (matchAll doc)"
  shows "snd (span_of (matchAll doc ! j)) < fst (span_of (matchAll doc ! Suc j))"
proof -
  let ?a = "matchAll doc ! j" and ?b = "matchAll doc ! Suc j"
  from assms have ma: "?a \<in> set (matchAll doc)" and mb: "?b \<in> set (matchAll doc)"
    by simp_all
  have "snd (map span_of (matchAll doc) ! j) \<le> fst (map span_of (matchAll doc) ! Suc j)"
    using sorted_wrt_nth_less [OF matchAll_sorted [of doc], of j "Suc j"] assms by simp
  then have le: "snd (span_of ?a) \<le> fst (span_of ?b)" using assms by simp
  have "snd (span_of ?a) \<noteq> fst (span_of ?b)"
  proof
    assume eq: "snd (span_of ?a) = fst (span_of ?b)"
    from matchAll_lines [OF mb] have h: "has_at doc (fst (span_of ?b)) (js ''```mermaid'')" by simp
    then have lt: "fst (span_of ?b) < length doc" by (simp add: has_at_def length_js)
    from has_at_nth [OF h, of 0] have "doc ! fst (span_of ?b) = 96" by (simp add: js_def)
    then have "\<not> is_line_terminator (doc ! fst (span_of ?b))"
      by (simp add: is_line_terminator_def)
    with lt have "\<not> at_line_end doc (fst (span_of ?b))" by (simp add: at_line_end_def)
    with matchAll_lines [OF ma] eq show False by simp
  qed
  with le show ?thesis by simp
qed

lemma document_blank_lines:
  assumes k: "k < length (matchAll content)"
    and r: "fst (document_decisions cfg pf filePath content st) ! k = Rendered ([LF] @ svg @ [LF])"
  shows "\<exists>pre post. document_text cfg pf filePath content st = pre @ [LF] @ svg @ [LF] @ post
          \<and> (pre = [] \<or> is_line_terminator (last pre))
          \<and> (post = [] \<or> is_line_terminator (hd post))"
proof -
  let ?ms = "matchAll content"
  let ?outs = "fst (document_decisions cfg pf filePath content st)"
  let ?ds = "zip (map span_of ?ms) ?outs"
  have l: "length ?outs = length ?ms" by (rule document_decisions_length)
  with k have kd: "k < length ?ds" and nth: "?ds ! k = (span_of (?ms ! k), ?outs ! k)"
    by simp_all
  have fst_ds: "map fst ?ds = map span_of ?ms" using l by simp
  have ok: "spans_ok 0 (map fst ?ds) (length content)"
    unfolding fst_ds by (rule matchAll_spans_ok)
  have sep: "\<forall>j. Suc j < length ?ds \<longrightarrow> snd (fst (?ds ! j)) < fst (fst (?ds ! Suc j))"
  proof (intro allI impI)
    fix j assume "Suc j < length ?ds"
    with l have j: "Suc j < length ?ms" by simp
    with l have "?ds ! j = (span_of (?ms ! j), ?outs ! j)"
      "?ds ! Suc j = (span_of (?ms ! Suc j), ?outs ! Suc j)" by simp_all
    with matchAll_separated [OF j] show "snd (fst (?ds ! j)) < fst (fst (?ds ! Suc j))"
      by simp
  qed
  from k have mk: "?ms ! k \<in> set ?ms" by simp
  from matchAll_lines [OF mk] nth
  have ls: "at_line_start content (fst (fst (?ds ! k)))"
    and le: "at_line_end content (snd (fst (?ds ! k)))" by simp_all
  from compose_around [OF kd ok sep ls le] obtain pre post where
    "compose_upto content 0 ?ds (length content)
        = pre @ replaced content (fst (?ds ! k)) (snd (?ds ! k)) @ post"
    "pre = [] \<or> is_line_terminator (last pre)" "post = [] \<or> is_line_terminator (hd post)"
    by blast
  moreover have "replaced content (fst (?ds ! k)) (snd (?ds ! k)) = [LF] @ svg @ [LF]"
    using nth r by (cases "span_of (?ms ! k)") simp
  ultimately show ?thesis
    by (auto simp add: document_text_def compose_def)
qed


text \<open>
  C4. In \<open>svg\<close> mode, for every match: when the renderer returns markup, the turn of the
  loop replaces the span in \<open>result\<close> by a line feed, the markup, and a line feed; every
  rendered outcome is of that form, for markup that the renderer returned for the code of
  that diagram; and in the composed text of a document the first line feed stands at the
  start of the text or after a line terminator, and the second one at the end of the text
  or before a line terminator: an empty line before the markup and one after it.
\<close>

theorem vector_replacement:
  assumes "fmt cfg = Svg"
  shows "(\<forall>svg w. page_evaluate_render pf (diagram_code (matches ! i)) (world (ext ls)) = (Inr svg, w)
            \<longrightarrow> result (iteration cfg pf base mermaidDir matches i ls)
                 = slice (result ls) 0 (index (matches ! i)) @ [LF] @ svg @ [LF]
                     @ slice_from (result ls) (index (matches ! i) + length (full (matches ! i))))
     \<and> (\<forall>k t. k < length matches
            \<and> fst (decisions cfg pf base mermaidDir matches (length matches) st) ! k = Rendered t
            \<longrightarrow> (\<exists>svg w0 w1. page_evaluate_render pf (diagram_code (matches ! k)) w0 = (Inr svg, w1)
                     \<and> t = [LF] @ svg @ [LF]))
     \<and> (\<forall>k t. k < length (matchAll content)
            \<and> fst (document_decisions cfg pf filePath content st1) ! k = Rendered t
            \<longrightarrow> (\<exists>svg pre post. t = [LF] @ svg @ [LF]
                     \<and> document_text cfg pf filePath content st1 = pre @ [LF] @ svg @ [LF] @ post
                     \<and> (pre = [] \<or> is_line_terminator (last pre))
                     \<and> (post = [] \<or> is_line_terminator (hd post))))"
proof -
  have one: "\<forall>svg w. page_evaluate_render pf (diagram_code (matches ! i)) (world (ext ls)) = (Inr svg, w)
            \<longrightarrow> result (iteration cfg pf base mermaidDir matches i ls)
                 = slice (result ls) 0 (index (matches ! i)) @ [LF] @ svg @ [LF]
                     @ slice_from (result ls) (index (matches ! i) + length (full (matches ! i)))"
    using assms
    by (simp add: iteration_def render_replacement_def renderDiagram_def call_def Let_def
        stdout_write_def emit_def diagram_code_def)
  have two: "\<forall>k t. k < length matches
            \<and> fst (decisions cfg pf base mermaidDir matches (length matches) st) ! k = Rendered t
            \<longrightarrow> (\<exists>svg w0 w1. page_evaluate_render pf (diagram_code (matches ! k)) w0 = (Inr svg, w1)
                     \<and> t = [LF] @ svg @ [LF])"
  proof (intro allI impI)
    fix k t
    assume "k < length matches
            \<and> fst (decisions cfg pf base mermaidDir matches (length matches) st) ! k = Rendered t"
    then have k: "k < length matches"
      and r: "fst (decisions cfg pf base mermaidDir matches (length matches) st) ! k = Rendered t"
      by simp_all
    from decisions_rendered [OF k r] assms
    show "\<exists>svg w0 w1. page_evaluate_render pf (diagram_code (matches ! k)) w0 = (Inr svg, w1)
                     \<and> t = [LF] @ svg @ [LF]"
      by blast
  qed
  have three: "\<forall>k t. k < length (matchAll content)
            \<and> fst (document_decisions cfg pf filePath content st1) ! k = Rendered t
            \<longrightarrow> (\<exists>svg pre post. t = [LF] @ svg @ [LF]
                     \<and> document_text cfg pf filePath content st1 = pre @ [LF] @ svg @ [LF] @ post
                     \<and> (pre = [] \<or> is_line_terminator (last pre))
                     \<and> (post = [] \<or> is_line_terminator (hd post)))"
  proof (intro allI impI)
    fix k t
    assume a: "k < length (matchAll content)
            \<and> fst (document_decisions cfg pf filePath content st1) ! k = Rendered t"
    then have k: "k < length (matchAll content)"
      and r: "fst (document_decisions cfg pf filePath content st1) ! k = Rendered t"
      by simp_all
    from r have "fst (decisions cfg pf (base_of pf filePath) (mermaidDir_of pf filePath)
          (matchAll content) (length (matchAll content))
          (snd (prepare cfg pf filePath (length (matchAll content)) st1))) ! k = Rendered t"
      by (simp add: document_decisions_def)
    from decisions_rendered [OF k this] assms obtain svg where t: "t = [LF] @ svg @ [LF]"
      by blast
    from document_blank_lines [OF k r [unfolded t]] obtain pre post where
      "document_text cfg pf filePath content st1 = pre @ [LF] @ svg @ [LF] @ post"
      "pre = [] \<or> is_line_terminator (last pre)" "post = [] \<or> is_line_terminator (hd post)"
      by blast
    with t show "\<exists>svg pre post. t = [LF] @ svg @ [LF]
                     \<and> document_text cfg pf filePath content st1 = pre @ [LF] @ svg @ [LF] @ post
                     \<and> (pre = [] \<or> is_line_terminator (last pre))
                     \<and> (post = [] \<or> is_line_terminator (hd post))"
      by blast
  qed
  show ?thesis
    by (intro conjI) (rule one, rule two, rule three)
qed

lemma demo_render_B:
  "page_evaluate_render demo_platform (diagram_code (matchAll demo_two ! 1)) (world demo_start)
     = (Inr (js ''<svg>B</svg>''), 1)"
  by (simp add: demo_two_matches diagram_code_def trim_demo demo_calls demo_render_def
        demo_start_def)
     (simp add: js_def)

theorem vector_replacement_witness:
  "result (iteration (demo_config Svg B64) demo_platform (js ''architecture'') (js ''/d/mermaid'')
             (matchAll demo_two) 1 \<lparr> result = demo_two, failures = 0, ext = demo_start \<rparr>)
   = js ''```mermaid\<newline>A\<newline>```\<newline>\<newline><svg>B</svg>\<newline>''"
proof -
  have f: "fmt (demo_config Svg B64) = Svg" by (simp add: demo_config_simps)
  from vector_replacement [OF f, of demo_platform "matchAll demo_two" 1
      "\<lparr> result = demo_two, failures = 0, ext = demo_start \<rparr>" "js ''architecture''"
      "js ''/d/mermaid''" demo_start] demo_render_B
  have "result (iteration (demo_config Svg B64) demo_platform (js ''architecture'') (js ''/d/mermaid'')
             (matchAll demo_two) 1 \<lparr> result = demo_two, failures = 0, ext = demo_start \<rparr>)
     = slice demo_two 0 (index (matchAll demo_two ! 1)) @ [LF] @ js ''<svg>B</svg>'' @ [LF]
         @ slice_from demo_two (index (matchAll demo_two ! 1) + length (full (matchAll demo_two ! 1)))"
    by simp
  also have "\<dots> = js ''```mermaid\<newline>A\<newline>```\<newline>\<newline><svg>B</svg>\<newline>''"
    by (simp add: demo_two_matches) (simp add: slice_def slice_from_def demo_two_def js_def LF_def)
  finally show ?thesis .
qed









section \<open>Names and failures in a converted file\<close>




























section \<open>Discovery\<close>

lemma endsWith_iff: "endsWith s t \<longleftrightarrow> (\<exists>p. s = p @ t)"
proof
  assume "endsWith s t"
  then have "s = take (length s - length t) s @ t"
    by (simp add: endsWith_def) (metis append_take_drop_id)
  then show "\<exists>p. s = p @ t" by blast
next
  assume "\<exists>p. s = p @ t"
  then show "endsWith s t" by (auto simp add: endsWith_def)
qed

lemma includes_str_iff: "includes_str s t \<longleftrightarrow> (\<exists>p q. s = p @ t @ q)"
proof (induction s)
  case Nil
  then show ?case by auto
next
  case (Cons c s)
  show ?case
  proof
    assume "includes_str (c # s) t"
    then have "take (length t) (c # s) = t \<or> includes_str s t" by simp
    then show "\<exists>p q. c # s = p @ t @ q"
    proof
      assume "take (length t) (c # s) = t"
      then have "c # s = [] @ t @ drop (length t) (c # s)"
        by (metis append_Nil append_take_drop_id)
      then show ?thesis by blast
    next
      assume "includes_str s t"
      with Cons obtain p q where "s = p @ t @ q" by blast
      then have "c # s = (c # p) @ t @ q" by simp
      then show ?thesis by blast
    qed
  next
    assume "\<exists>p q. c # s = p @ t @ q"
    then obtain p q where pq: "c # s = p @ t @ q" by blast
    show "includes_str (c # s) t"
    proof (cases p)
      case Nil
      with pq have "take (length t) (c # s) = t" by simp
      then show ?thesis by simp
    next
      case (Cons d p')
      with pq have "s = p' @ t @ q" by simp
      with Cons.IH have "includes_str s t" by blast
      then show ?thesis by simp
    qed
  qed
qed

lemma collect_loop_walk:
  "readable entries \<Longrightarrow>
     collect_loop join dir entries files =
       Inr (files @ map fst (filter (\<lambda>(path, name). selected name) (walk join dir entries)))"
  by (induction join dir entries files rule: collect_loop.induct) simp_all

lemma collect_loop_unreadable:
  "\<not> readable entries \<Longrightarrow> \<exists>err. collect_loop join dir entries files = Inl err"
  by (induction join dir entries files rule: collect_loop.induct) (auto split: sum.splits)

lemma output_name_not_selected: "\<not> selected (base @ suffix_of f @ ext')"
proof -
  have "suffix_of f = js ''_mermaid2'' @ (if f = Svg then js ''svg'' else js ''jpg'')"
    by (simp add: suffix_of_def js_def)
  then have "base @ suffix_of f @ ext'
      = base @ js ''_mermaid2'' @ ((if f = Svg then js ''svg'' else js ''jpg'') @ ext')"
    by simp
  then have "includes_str (base @ suffix_of f @ ext') (js ''_mermaid2'')"
    unfolding includes_str_iff by blast
  then show ?thesis by (simp add: selected_def)
qed

lemma discover_cases:
  "fs_stat_isDirectory pf (mdPath cfg) (world st) = (Inr False, w) \<Longrightarrow>
     fst (discover cfg pf st) = Inr [mdPath cfg]"
  "fs_stat_isDirectory pf (mdPath cfg) (world st) = (Inr True, w) \<Longrightarrow>
     fst (discover cfg pf st)
       = collectMarkdownFiles (path_join pf) (mdPath cfg) (fs_readdir pf (mdPath cfg) w)"
  by (simp_all add: discover_def call_def)

text \<open>
  C10. For every directory tree whose listings succeed, \<open>collectMarkdownFiles\<close> returns the
  paths of exactly the entries that are not directories and whose name is selected, in the
  order of the walk; a name is selected exactly when it ends in \<open>.md\<close> and does not
  contain \<open>_mermaid2\<close>; the name of an output file, \<open>base + suffix + ext\<close>, is never selected;
  and \<open>main\<close> applies the walk only when the path is a directory: for any other path the
  list of files is that path alone, whatever its name.
\<close>

theorem discovery_filter:
  "(readable entries \<longrightarrow>
      collectMarkdownFiles join dir (Inr entries)
        = Inr (map fst (filter (\<lambda>(path, name). selected name) (walk join dir entries))))
   \<and> (selected name \<longleftrightarrow> (\<exists>p. name = p @ js ''.md'') \<and> \<not> (\<exists>p q. name = p @ js ''_mermaid2'' @ q))
   \<and> \<not> selected (base @ suffix_of f @ ext')
   \<and> (fs_stat_isDirectory pf (mdPath cfg) (world st) = (Inr True, w) \<longrightarrow>
        fst (discover cfg pf st)
          = collectMarkdownFiles (path_join pf) (mdPath cfg) (fs_readdir pf (mdPath cfg) w))
   \<and> (fs_stat_isDirectory pf (mdPath cfg) (world st) = (Inr False, w) \<longrightarrow>
        fst (discover cfg pf st) = Inr [mdPath cfg])"
  using collect_loop_walk [of entries join dir "[]"] output_name_not_selected [of base f ext']
    discover_cases [of pf cfg st w]
  by (simp add: collectMarkdownFiles_def selected_def endsWith_iff includes_str_iff)

theorem discovery_filter_witness:
  "collectMarkdownFiles (path_join demo_platform) (js ''/d'') (Inr demo_tree)
     = Inr [js ''/d/a.md'', js ''/d/notes.md/c.md'']
   \<and> fst (discover (demo_config Svg B64) demo_platform demo_start) = Inr [js ''/d/x.md'']"
proof -
  have r: "readable demo_tree" by (simp add: demo_tree_def)
  have s: "fs_stat_isDirectory demo_platform (mdPath (demo_config Svg B64)) (world demo_start)
       = (Inr False, 0)"
    by (simp add: demo_platform_def demo_start_def)
  have sel: "selected (js ''a.md'')" "\<not> selected (js ''a_mermaid2jpg.md'')"
      "\<not> selected (js ''b.txt'')" "selected (js ''c.md'')" "\<not> selected (js ''c_mermaid2svg.md'')"
    by (simp_all add: selected_def endsWith_def js_def)
  from discovery_filter [of demo_tree "path_join demo_platform" "js ''/d''" "[]" "[]" Svg "[]"
      demo_platform "demo_config Svg B64" demo_start 0] r s
  have "collectMarkdownFiles (path_join demo_platform) (js ''/d'') (Inr demo_tree)
        = Inr (map fst (filter (\<lambda>(path, name). selected name)
                 (walk (path_join demo_platform) (js ''/d'') demo_tree)))"
    and d: "fst (discover (demo_config Svg B64) demo_platform demo_start)
        = Inr [mdPath (demo_config Svg B64)]"
    by simp_all
  then show ?thesis
    by (simp add: demo_tree_def sel demo_paths demo_config_simps) (simp add: js_def)
qed

section \<open>The device scale factor\<close>

lemma opened_pages_append: "opened_pages (xs @ ys) = opened_pages xs @ opened_pages ys"
  by (induction xs rule: opened_pages.induct) simp_all

lemma loop_event_no_page: "list_all loop_event es \<Longrightarrow> opened_pages es = []"
  by (induction es rule: opened_pages.induct) simp_all

lemma is_console_no_page: "list_all is_console es \<Longrightarrow> opened_pages es = []"
  by (induction es rule: opened_pages.induct) simp_all

lemma prepare_no_page:
  assumes "prepare cfg pf filePath n st = (r, st2)"
  shows "\<exists>es. trace st2 = trace st @ es \<and> opened_pages es = []"
proof (cases "fmt cfg = Jpg \<and> mode cfg = Files")
  case False
  with assms have "\<exists>s. trace st2 = trace st @ [Stdout s]"
    by (auto simp add: prepare_def Let_def console_log_def emit_def)
  then show ?thesis by auto
next
  case True
  with assms obtain s path where
    c: "call (Mkdir path) (fs_mkdir pf path) (console_log s st) = (r, st2)"
    by (auto simp add: prepare_def Let_def)
  from call_result [OF c] have "trace st2 = trace st @ [Stdout (s @ [LF]), Mkdir path]"
    by (simp add: console_log_def emit_def)
  then show ?thesis by auto
qed

lemma processFile_no_page:
  assumes "processFile cfg pf filePath st = (r, st')"
  shows "\<exists>es. trace st' = trace st @ es \<and> opened_pages es = []"
proof -
  obtain r1 w where read: "fs_readFile pf filePath (world st) = (r1, w)"
    by (cases "fs_readFile pf filePath (world st)")
  have t1: "trace (after_read filePath w st) = trace st @ [ReadFile filePath]"
    by (simp add: after_read_def)
  show ?thesis
  proof (cases r1)
    case (Inl e)
    from processFile_read_error [OF read [unfolded Inl], of cfg] assms t1
    show ?thesis by auto
  next
    case (Inr content)
    note read' = read [unfolded Inr]
    show ?thesis
    proof (cases "matchAll content = []")
      case True
      from processFile_no_match [OF read' True, of cfg] assms t1 show ?thesis by auto
    next
      case False
      obtain r2 st2 where p: "prepare cfg pf filePath (length (matchAll content))
          (after_read filePath w st) = (r2, st2)"
        by (cases "prepare cfg pf filePath (length (matchAll content)) (after_read filePath w st)")
      from prepare_no_page [OF p] t1 obtain ep where
        ep: "trace st2 = trace st @ (ReadFile filePath # ep)" "opened_pages ep = []"
        by auto
      show ?thesis
      proof (cases r2)
        case (Inl e2)
        from processFile_prepare_error [OF read' False p [unfolded Inl]] assms
        have "st' = st2" by simp
        with ep show ?thesis by auto
      next
        case (Inr u)
        let ?dd = "document_decisions cfg pf filePath content (after_read filePath w st)"
        have dd: "?dd = decisions cfg pf (base_of pf filePath) (mermaidDir_of pf filePath)
            (matchAll content) (length (matchAll content)) st2"
          using p by (simp add: document_decisions_def)
        from decisions_loop_events [of cfg pf "base_of pf filePath" "mermaidDir_of pf filePath"
            "matchAll content" "length (matchAll content)" st2]
        obtain el where el: "trace (snd ?dd) = trace st2 @ el" "list_all loop_event el"
          unfolding dd by auto
        from processFile_converted [OF read' False p [unfolded Inr]] assms
        have "finish_file cfg pf (path_dirname pf filePath) (base_of pf filePath)
            (path_extname pf filePath)
            \<lparr> result = document_text cfg pf filePath content (after_read filePath w st),
              failures = length (filter is_Failed (fst ?dd)), ext = snd ?dd \<rparr> = (r, st')"
          by simp
        from finish_file_written [OF this] obtain path t es where
          es: "trace st' = trace (snd ?dd) @ WriteText path t # es" "list_all is_console es"
          by auto
        let ?all = "ReadFile filePath # ep @ el @ WriteText path t # es"
        have "trace st' = trace st @ ?all" using es(1) el(1) ep(1) by simp
        moreover have "opened_pages ?all = []"
          using ep(2) loop_event_no_page [OF el(2)] is_console_no_page [OF es(2)]
          by (simp add: opened_pages_append)
        ultimately show ?thesis by blast
      qed
    qed
  qed
qed

lemma processFiles_no_page:
  "processFiles cfg pf files processed st = (r, st') \<Longrightarrow>
     \<exists>es. trace st' = trace st @ es \<and> opened_pages es = []"
proof (induction files arbitrary: processed st)
  case Nil
  then show ?case by simp
next
  case (Cons f fs)
  obtain r1 st1 where p: "processFile cfg pf f st = (r1, st1)"
    by (cases "processFile cfg pf f st")
  from processFile_no_page [OF p] obtain e1 where
    e1: "trace st1 = trace st @ e1" "opened_pages e1 = []" by blast
  show ?case
  proof (cases r1)
    case (Inl e)
    with Cons.prems p have "st' = st1" by simp
    with e1 show ?thesis by blast
  next
    case (Inr b)
    with Cons.prems p
    have "processFiles cfg pf fs (if b then processed + 1 else processed) st1 = (r, st')"
      by simp
    from Cons.IH [OF this] obtain e2 where "trace st' = trace st1 @ e2" "opened_pages e2 = []"
      by blast
    with e1 have "trace st' = trace st @ (e1 @ e2)" "opened_pages (e1 @ e2) = []"
      by (simp_all add: opened_pages_append)
    then show ?thesis by blast
  qed
qed

lemma initPage_pages:
  assumes "initPage cfg pf st = (r, st')"
  shows "\<exists>es. trace st' = trace st @ es \<and> opened_pages es = [scale cfg]"
proof -
  obtain r1 st1 where c1: "call (NewPage 1400 900 (scale cfg))
      (browser_newPage pf 1400 900 (scale cfg)) st = (r1, st1)"
    by (cases "call (NewPage 1400 900 (scale cfg)) (browser_newPage pf 1400 900 (scale cfg)) st")
  obtain r2 st2 where c2: "call SetContent (page_setContent pf) st1 = (r2, st2)"
    by (cases "call SetContent (page_setContent pf) st1")
  obtain r3 st3 where c3: "call (WaitForFunction 30000) (page_waitForFunction pf 30000) st2 = (r3, st3)"
    by (cases "call (WaitForFunction 30000) (page_waitForFunction pf 30000) st2")
  from call_result [OF c1] call_result [OF c2] call_result [OF c3]
  have t: "trace st1 = trace st @ [NewPage 1400 900 (scale cfg)]"
    "trace st2 = trace st @ [NewPage 1400 900 (scale cfg), SetContent]"
    "trace st3 = trace st @ [NewPage 1400 900 (scale cfg), SetContent, WaitForFunction 30000]"
    by simp_all
  from assms c1 c2 c3 have "st' = st1 \<or> st' = st2 \<or> st' = st3"
    by (auto simp add: initPage_def split: sum.splits)
  with t show ?thesis by auto
qed

lemma session_pages:
  assumes "session cfg pf files st = (r, st')"
  shows "\<exists>es. trace st' = trace st @ es \<and> opened_pages es = [scale cfg]"
proof -
  obtain r1 st1 where i: "initPage cfg pf st = (r1, st1)"
    by (cases "initPage cfg pf st")
  from initPage_pages [OF i] obtain e1 where
    e1: "trace st1 = trace st @ e1" "opened_pages e1 = [scale cfg]" by blast
  show ?thesis
  proof (cases r1)
    case (Inl e)
    with assms i have "st' = st1" by (simp add: session_def)
    with e1 show ?thesis by blast
  next
    case (Inr u)
    obtain r2 st2 where p: "processFiles cfg pf files 0 st1 = (r2, st2)"
      by (cases "processFiles cfg pf files 0 st1")
    from processFiles_no_page [OF p] obtain e2 where
      e2: "trace st2 = trace st1 @ e2" "opened_pages e2 = []" by blast
    show ?thesis
    proof (cases r2)
      case (Inl e)
      with assms i p Inr have "st' = st2" by (simp add: session_def)
      with e1 e2 have "trace st' = trace st @ (e1 @ e2)" "opened_pages (e1 @ e2) = [scale cfg]"
        by (simp_all add: opened_pages_append)
      then show ?thesis by blast
    next
      case (Inr n)
      with assms i p \<open>r1 = Inr u\<close> have "st' = snd (call ClosePage (page_close pf) st2)"
        by (simp add: session_def)
      then have "trace st' = trace st2 @ [ClosePage]"
        by (simp add: call_def split: prod.splits)
      with e1 e2 have "trace st' = trace st @ (e1 @ e2 @ [ClosePage])"
        "opened_pages (e1 @ e2 @ [ClosePage]) = [scale cfg]"
        by (simp_all add: opened_pages_append)
      then show ?thesis by blast
    qed
  qed
qed


lemma discover_trace:
  assumes "discover cfg pf st = (r, st1)"
  shows "trace st1 = trace st @ [Stat (mdPath cfg)]"
proof -
  obtain r0 st0 where c: "call (Stat (mdPath cfg)) (fs_stat_isDirectory pf (mdPath cfg)) st = (r0, st0)"
    by (cases "call (Stat (mdPath cfg)) (fs_stat_isDirectory pf (mdPath cfg)) st")
  with assms have "st1 = st0"
    by (auto simp add: discover_def split: sum.splits if_splits)
  with call_result [OF c] show ?thesis by simp
qed

lemma main_pages:
  "\<exists>es. trace (snd (main banner cfg pf st)) = trace st @ es
      \<and> (opened_pages es = [] \<or> opened_pages es = [scale cfg])
      \<and> ((\<exists>files st1 u st2. discover cfg pf (stderr_write (banner @ [LF]) st) = (Inr files, st1)
             \<and> files \<noteq> []
             \<and> call Launch (chromium_launch pf)
                  (console_log (show_nat (length files)
                     @ js '' markdown file(s) to scan. Launching browser...'') st1) = (Inr u, st2))
           \<longrightarrow> opened_pages es = [scale cfg])"
proof -
  let ?st0 = "stderr_write (banner @ [LF]) st"
  have t0: "trace ?st0 = trace st @ [Stderr (banner @ [LF])]"
    by (simp add: stderr_write_def emit_def)
  obtain r1 st1 where d: "discover cfg pf ?st0 = (r1, st1)"
    by (cases "discover cfg pf ?st0")
  from discover_trace [OF d] t0
  have t1: "trace st1 = trace st @ [Stderr (banner @ [LF]), Stat (mdPath cfg)]" by simp
  show ?thesis
  proof (cases r1)
    case (Inl e)
    with d have "snd (main banner cfg pf st) = st1" by (simp add: main_def)
    with t1 d Inl show ?thesis by auto
  next
    case (Inr files)
    show ?thesis
    proof (cases "files = []")
      case True
      with d Inr have "snd (main banner cfg pf st) = console_log (js ''No markdown files found.'') st1"
        by (simp add: main_def)
      with t1 d Inr True show ?thesis by (auto simp add: console_log_def emit_def)
    next
      case False
      let ?st1' = "console_log (show_nat (length files)
                     @ js '' markdown file(s) to scan. Launching browser...'') st1"
      obtain r2 st2 where l: "call Launch (chromium_launch pf) ?st1' = (r2, st2)"
        by (cases "call Launch (chromium_launch pf) ?st1'")
      from call_result [OF l] t1 obtain e2 where
        t2: "trace st2 = trace st @ e2" "opened_pages e2 = []"
        by (auto simp add: console_log_def emit_def)
      show ?thesis
      proof (cases r2)
        case (Inl e)
        with d Inr False l have "snd (main banner cfg pf st) = st2" by (simp add: main_def)
        with t2 d Inr l Inl show ?thesis by auto
      next
        case (Inr u)
        obtain r3 st3 where s: "session cfg pf files st2 = (r3, st3)"
          by (cases "session cfg pf files st2")
        from session_pages [OF s] obtain e3 where
          t3: "trace st3 = trace st2 @ e3" "opened_pages e3 = [scale cfg]" by blast
        obtain r4 st4 where c: "call CloseBrowser (browser_close pf) st3 = (r4, st4)"
          by (cases "call CloseBrowser (browser_close pf) st3")
        from call_result [OF c] have t4: "trace st4 = trace st3 @ [CloseBrowser]" by simp
        from d \<open>r1 = Inr files\<close> False l Inr s c
        have "snd (main banner cfg pf st) = st4
            \<or> (\<exists>m. snd (main banner cfg pf st) = console_log m st4)"
          by (auto simp add: main_def split: sum.splits)
        then obtain e5 where "trace (snd (main banner cfg pf st)) = trace st4 @ e5"
            "opened_pages e5 = []"
          by (auto simp add: console_log_def emit_def)
        with t2 t3 t4 have "trace (snd (main banner cfg pf st))
              = trace st @ (e2 @ e3 @ [CloseBrowser] @ e5)"
            "opened_pages (e2 @ e3 @ [CloseBrowser] @ e5) = [scale cfg]"
          by (simp_all add: opened_pages_append)
        then show ?thesis by blast
      qed
    qed
  qed
qed

lemma parse_scale_facts:
  "parse_scale None = Some 2"
  "parse_scale opt = Some s \<Longrightarrow> 1 \<le> s \<and> s \<le> 4"
  "parseInt10 v = Some n \<Longrightarrow>
     parse_scale (Some v) = Some (if n < 1 then 1 else if 4 < n then 4 else n)"
  "parse_scale (Some v) = None \<longleftrightarrow> \<not> has_leading_integer v"
proof -
  show "parse_scale None = Some 2"
    by (simp add: parse_scale_def parseInt10_def js_def is_white_space_def is_line_terminator_def
        is_digit_def digit_value_def Let_def)
  show "parse_scale opt = Some s \<Longrightarrow> 1 \<le> s \<and> s \<le> 4"
    by (auto simp add: parse_scale_def split: option.splits)
  show "parseInt10 v = Some n \<Longrightarrow>
     parse_scale (Some v) = Some (if n < 1 then 1 else if 4 < n then 4 else n)"
    by (auto simp add: parse_scale_def)
  show "parse_scale (Some v) = None \<longleftrightarrow> \<not> has_leading_integer v"
    by (auto simp add: parse_scale_def parseInt10_def has_leading_integer_def Let_def
        takeWhile_eq_Nil_iff split: option.splits if_splits)
qed

lemma startup_scale:
  "startup resolve exists args = Ready cfg \<Longrightarrow> parse_scale (arg_scale args) = Some (scale cfg)"
  "startup resolve exists args = ExitError scale_message \<Longrightarrow> parse_scale (arg_scale args) = None"
proof -
  show "startup resolve exists args = Ready cfg \<Longrightarrow> parse_scale (arg_scale args) = Some (scale cfg)"
    by (auto simp add: startup_def Let_def split: if_splits option.splits)
  have ne: "js ''Error: --svg and --jpg are mutually exclusive'' \<noteq> scale_message"
    "js ''Error: --b64 and --files are mutually exclusive'' \<noteq> scale_message"
    "js ''Error: --files requires --jpg format'' \<noteq> scale_message"
    "\<And>p. js ''Error: path not found: '' @ p \<noteq> scale_message"
    by (simp_all add: scale_message_def js_def)
  show "startup resolve exists args = ExitError scale_message \<Longrightarrow> parse_scale (arg_scale args) = None"
    using ne by (auto simp add: startup_def Let_def split: if_splits option.splits)
qed

text \<open>
  C5. The scale is 2 when \<open>--scale\<close> is absent; a scale that is parsed lies between 1 and
  4; a value in which \<open>parseInt\<close> finds the number \<open>n\<close> gives \<open>n\<close> clamped into 1 to 4 and
  is not rejected; the value is rejected exactly when \<open>parseInt\<close> finds no number in it; the
  constants with which the program runs carry the parsed scale, and the exit with the
  message about the scale happens only when the value is not a number. In a run of \<open>main\<close>
  at most one page is opened, and its device scale factor is that scale.
\<close>

theorem device_scale:
  "parse_scale None = Some 2
   \<and> (\<forall>s. parse_scale opt = Some s \<longrightarrow> 1 \<le> s \<and> s \<le> 4)
   \<and> (\<forall>n. parseInt10 v = Some n \<longrightarrow>
         parse_scale (Some v) = Some (if n < 1 then 1 else if 4 < n then 4 else n))
   \<and> (parse_scale (Some v) = None \<longleftrightarrow> \<not> has_leading_integer v)
   \<and> (\<forall>cfg. startup resolve exists args = Ready cfg \<longrightarrow>
         parse_scale (arg_scale args) = Some (scale cfg))
   \<and> (startup resolve exists args = ExitError scale_message \<longrightarrow>
         parse_scale (arg_scale args) = None)
   \<and> (opened_pages (new_events st (snd (main banner cfg' pf st))) = []
        \<or> opened_pages (new_events st (snd (main banner cfg' pf st))) = [scale cfg'])"
proof -
  from main_pages [of banner cfg' pf st] obtain es where
    "trace (snd (main banner cfg' pf st)) = trace st @ es"
    "opened_pages es = [] \<or> opened_pages es = [scale cfg']"
    by blast
  then have m: "opened_pages (new_events st (snd (main banner cfg' pf st))) = []
        \<or> opened_pages (new_events st (snd (main banner cfg' pf st))) = [scale cfg']"
    by (simp add: new_events_def)
  show ?thesis
    using parse_scale_facts(1) parse_scale_facts(2) [of opt] parse_scale_facts(3) [of v]
      parse_scale_facts(4) [of v] startup_scale [of resolve exists args] m
    by (intro conjI allI impI) (assumption | simp)+
qed


lemmas parse_eval =
  parseInt10_def js_def is_white_space_def is_line_terminator_def is_digit_def digit_value_def
  Let_def has_leading_integer_def

lemma demo_main_pages:
  "opened_pages (new_events demo_start (snd (main [] (demo_config Svg B64) demo_platform demo_start)))
     = [2]"
proof -
  let ?cfg = "demo_config Svg B64"
  let ?st0 = "stderr_write ([] @ [LF]) demo_start"
  have d: "discover ?cfg demo_platform ?st0
      = (Inr [js ''/d/x.md''], \<lparr> world = 0, trace = trace ?st0 @ [Stat (js ''/d/x.md'')] \<rparr>)"
    by (simp add: discover_def call_def demo_platform_def demo_config_simps stderr_write_def
        emit_def demo_start_def)
  let ?st1 = "\<lparr> world = 0 :: nat, trace = trace ?st0 @ [Stat (js ''/d/x.md'')] \<rparr>"
  obtain st2 where l: "call Launch (chromium_launch demo_platform)
      (console_log (show_nat (length [js ''/d/x.md''])
         @ js '' markdown file(s) to scan. Launching browser...'') ?st1) = (Inr (), st2)"
    by (simp add: call_def demo_platform_def)
  from main_pages [of "[]" ?cfg demo_platform demo_start] d l
  obtain es where "trace (snd (main [] ?cfg demo_platform demo_start)) = trace demo_start @ es"
    "opened_pages es = [scale ?cfg]"
    by blast
  then show ?thesis by (simp add: new_events_def demo_config_simps)
qed

theorem device_scale_witness:
  "parse_scale None = Some 2
   \<and> parse_scale (Some (js ''9'')) = Some 4
   \<and> parse_scale (Some (js '' -1'')) = Some 1
   \<and> parse_scale (Some (js ''3.7'')) = Some 3
   \<and> parse_scale (Some (js ''two'')) = None
   \<and> opened_pages (new_events demo_start
        (snd (main [] (demo_config Svg B64) demo_platform demo_start))) = [2]"
proof -
  have p: "parseInt10 (js ''9'') = Some 9" "parseInt10 (js '' -1'') = Some (- 1)"
      "parseInt10 (js ''3.7'') = Some 3"
    by (simp_all add: parse_eval)
  have n: "\<not> has_leading_integer (js ''two'')"
    by (simp add: parse_eval)
  note clamp = device_scale [THEN conjunct2, THEN conjunct2, THEN conjunct1, rule_format]
  note fatal = device_scale [THEN conjunct2, THEN conjunct2, THEN conjunct2, THEN conjunct1]
  have a: "parse_scale None = Some 2"
    by (rule device_scale [THEN conjunct1])
  from clamp [OF p(1)] have a': "parse_scale (Some (js ''9'')) = Some 4" by simp
  from clamp [OF p(2)] have b: "parse_scale (Some (js '' -1'')) = Some 1" by simp
  from clamp [OF p(3)] have c: "parse_scale (Some (js ''3.7'')) = Some 3" by simp
  from fatal [of "js ''two''"] n have d: "parse_scale (Some (js ''two'')) = None" by blast
  from a a' b c d demo_main_pages show ?thesis by blast
qed

end
